theory Spec2Isabelle
  imports Main "HOL-Library.Char_ord"
begin

section \<open>govanity: static pages for Go vanity imports\<close>

text \<open>
  The program is one file, \<^verbatim>\<open>main.go\<close>.  Its own functions are embedded below under
  their Go names.  The functions of Go's standard library that they call
  (\<^verbatim>\<open>strings\<close>, \<^verbatim>\<open>net/url\<close>, \<^verbatim>\<open>path/filepath\<close>) are not part of the repository; they are
  embedded from the library's documented behaviour (go1.22, Unix build) so that the
  program's functions can be evaluated.  A Go string is a sequence of bytes: \<^typ>\<open>string\<close>.
\<close>

subsection \<open>Package strings\<close>

text \<open>\<^verbatim>\<open>strings.HasPrefix(s, prefix)\<close>, \<^verbatim>\<open>strings.HasSuffix(s, suffix)\<close>,
  \<^verbatim>\<open>strings.TrimPrefix(s, prefix)\<close>.\<close>

definition HasPrefix :: "string \<Rightarrow> string \<Rightarrow> bool" where
  "HasPrefix s p = (length p \<le> length s \<and> take (length p) s = p)"

definition HasSuffix :: "string \<Rightarrow> string \<Rightarrow> bool" where
  "HasSuffix s p = (length p \<le> length s \<and> drop (length s - length p) s = p)"

definition TrimPrefix :: "string \<Rightarrow> string \<Rightarrow> string" where
  "TrimPrefix s p = (if HasPrefix s p then drop (length p) s else s)"

text \<open>\<^verbatim>\<open>strings.TrimLeft(s, cutset)\<close>: the leading bytes that occur in the cutset are removed
  (the cutsets of the program are ASCII).\<close>

definition TrimLeft :: "string \<Rightarrow> string \<Rightarrow> string" where
  "TrimLeft s cutset = dropWhile (\<lambda>c. c \<in> set cutset) s"

text \<open>\<^verbatim>\<open>strings.Split(s, sep)\<close> and \<^verbatim>\<open>strings.Join(elems, sep)\<close> for a separator of one byte,
  which is all the program uses (\<^verbatim>\<open>"/"\<close>, \<^verbatim>\<open>":"\<close>, \<^verbatim>\<open>","\<close>).  Split never returns the empty
  slice: the empty string gives one empty field.\<close>

fun Split :: "string \<Rightarrow> char \<Rightarrow> string list" where
  "Split [] sep = [[]]"
| "Split (c # cs) sep =
     (if c = sep then [] # Split cs sep
      else (case Split cs sep of
              [] \<Rightarrow> [[c]]
            | f # fs \<Rightarrow> (c # f) # fs))"

fun Join :: "string list \<Rightarrow> char \<Rightarrow> string" where
  "Join [] sep = []"
| "Join [e] sep = e"
| "Join (e # es) sep = e @ sep # Join es sep"

text \<open>\<^verbatim>\<open>strings.Contains\<close>, \<^verbatim>\<open>strings.ContainsRune\<close>, \<^verbatim>\<open>strings.Count\<close> for one ASCII byte.\<close>

definition Contains :: "string \<Rightarrow> char \<Rightarrow> bool" where
  "Contains s c = (c \<in> set s)"

definition Count :: "string \<Rightarrow> char \<Rightarrow> nat" where
  "Count s c = length (filter (\<lambda>x. x = c) s)"

text \<open>\<^verbatim>\<open>strings.Cut(s, sep)\<close> for a separator of one byte: the text before the first
  separator, the text after it, and whether it was found.\<close>

definition Cut :: "string \<Rightarrow> char \<Rightarrow> string \<times> string \<times> bool" where
  "Cut s sep =
     (if sep \<in> set s
      then (takeWhile (\<lambda>c. c \<noteq> sep) s, tl (dropWhile (\<lambda>c. c \<noteq> sep) s), True)
      else (s, [], False))"

text \<open>\<^verbatim>\<open>strings.LastIndex(s, sep)\<close> for one byte; \<open>None\<close> is Go's \<open>-1\<close>.\<close>

fun LastIndex :: "string \<Rightarrow> char \<Rightarrow> nat option" where
  "LastIndex [] sep = None"
| "LastIndex (c # cs) sep =
     (case LastIndex cs sep of
        Some i \<Rightarrow> Some (Suc i)
      | None \<Rightarrow> if c = sep then Some 0 else None)"

text \<open>\<^verbatim>\<open>strings.Index(s, substr)\<close>; \<open>None\<close> is Go's \<open>-1\<close>.\<close>

fun Index :: "string \<Rightarrow> string \<Rightarrow> nat option" where
  "Index [] sub = (if sub = [] then Some 0 else None)"
| "Index (c # cs) sub =
     (if HasPrefix (c # cs) sub then Some 0
      else map_option Suc (Index cs sub))"

text \<open>\<^verbatim>\<open>strings.ToLower\<close> on ASCII text (the program lower-cases URL schemes only, which
  are ASCII letters, digits, \<open>+\<close>, \<open>-\<close> and \<open>.\<close>).\<close>

definition isUpper :: "char \<Rightarrow> bool" where
  "isUpper c = (CHR ''A'' \<le> c \<and> c \<le> CHR ''Z'')"

definition isLower :: "char \<Rightarrow> bool" where
  "isLower c = (CHR ''a'' \<le> c \<and> c \<le> CHR ''z'')"

definition isDigit :: "char \<Rightarrow> bool" where
  "isDigit c = (CHR ''0'' \<le> c \<and> c \<le> CHR ''9'')"

definition ToLower :: "string \<Rightarrow> string" where
  "ToLower s = map (\<lambda>c. if isUpper c then char_of (of_char c + (32::nat)) else c) s"

text \<open>\<^verbatim>\<open>strings.TrimSpace\<close> removes the leading and trailing runes of Unicode white space.
  On the bytes of a string these are the six ASCII spaces and the UTF-8 encodings of
  U+0085, U+00A0, U+1680, U+2000..U+200A, U+2028, U+2029, U+202F, U+205F and U+3000.\<close>

definition bytes :: "nat list \<Rightarrow> string" where
  "bytes ns = map char_of ns"

definition spaces :: "string list" where
  "spaces =
     map bytes ([[9], [10], [11], [12], [13], [32], [194, 133], [194, 160], [225, 154, 128]]
       @ map (\<lambda>k. [226, 128, k]) [128 ..< 139]
       @ [[226, 128, 168], [226, 128, 169], [226, 128, 175], [226, 129, 159], [227, 128, 128]])"

function stripLeading :: "string list \<Rightarrow> string \<Rightarrow> string" where
  "stripLeading ws s =
     (case filter (HasPrefix s) ws of
        [] \<Rightarrow> s
      | w # _ \<Rightarrow> if w = [] then s else stripLeading ws (drop (length w) s))"
  by pat_completeness auto
termination
proof (relation "measure (\<lambda>(ws, s). length s)")
  show "wf (measure (\<lambda>(ws, s). length s))" by simp
next
  fix ws :: "string list" and s :: string and w r
  assume f: "filter (HasPrefix s) ws = w # r" and ne: "w \<noteq> []"
  then have "w \<in> set (filter (HasPrefix s) ws)" by simp
  then have "HasPrefix s w" by simp
  with ne show "((ws, drop (length w) s), (ws, s)) \<in> measure (\<lambda>(ws, s). length s)"
    by (cases s) (auto simp: HasPrefix_def)
qed

declare stripLeading.simps [simp del]

definition TrimSpace :: "string \<Rightarrow> string" where
  "TrimSpace s = rev (stripLeading (map rev spaces) (rev (stripLeading spaces s)))"

subsection \<open>Package net/url: escaping\<close>

text \<open>The escaping modes of \<^verbatim>\<open>net/url\<close> (\<^verbatim>\<open>type encoding\<close>).\<close>

datatype encoding =
    encodePath | encodePathSegment | encodeHost | encodeZone
  | encodeUserPassword | encodeQueryComponent | encodeFragment

text \<open>The errors of \<^verbatim>\<open>url.Parse\<close>.\<close>

datatype url_error =
    InvalidControlCharacter
  | MissingProtocolScheme
  | FirstPathSegmentColon
  | EscapeError string
  | InvalidHostError string
  | MissingBracket
  | InvalidPort string
  | InvalidUserinfo

definition isAlnum :: "char \<Rightarrow> bool" where
  "isAlnum c = (isLower c \<or> isUpper c \<or> isDigit c)"

text \<open>\<^verbatim>\<open>shouldEscape(c, mode)\<close>: whether the byte must be percent-encoded in that part of
  a URL.\<close>

definition shouldEscape :: "char \<Rightarrow> encoding \<Rightarrow> bool" where
  "shouldEscape c mode =
     (if isAlnum c then False
      else if (mode = encodeHost \<or> mode = encodeZone) \<and> c \<in> set ''!$&'()*+,;=:[]<>\"'' then False
      else if c \<in> set ''-_.~'' then False
      else if c \<in> set ''$&+,/:;=?@'' \<and> mode = encodePath then c = CHR ''?''
      else if c \<in> set ''$&+,/:;=?@'' \<and> mode = encodePathSegment then c \<in> set ''/;,?''
      else if c \<in> set ''$&+,/:;=?@'' \<and> mode = encodeUserPassword then c \<in> set ''@/?:''
      else if c \<in> set ''$&+,/:;=?@'' \<and> mode = encodeQueryComponent then True
      else if c \<in> set ''$&+,/:;=?@'' \<and> mode = encodeFragment then False
      else if mode = encodeFragment \<and> c \<in> set ''!()*'' then False
      else True)"

definition ishex :: "char \<Rightarrow> bool" where
  "ishex c = (isDigit c \<or> (CHR ''a'' \<le> c \<and> c \<le> CHR ''f'') \<or> (CHR ''A'' \<le> c \<and> c \<le> CHR ''F''))"

definition unhex :: "char \<Rightarrow> nat" where
  "unhex c =
     (if isDigit c then of_char c - of_char (CHR ''0'')
      else if CHR ''a'' \<le> c \<and> c \<le> CHR ''f'' then of_char c - of_char (CHR ''a'') + 10
      else if CHR ''A'' \<le> c \<and> c \<le> CHR ''F'' then of_char c - of_char (CHR ''A'') + 10
      else 0)"

definition upperhex :: "nat \<Rightarrow> char" where
  "upperhex n = ''0123456789ABCDEF'' ! n"

text \<open>\<^verbatim>\<open>unescape(s, mode)\<close>, first pass: every \<open>%\<close> must be followed by two hex digits,
  and a host admits only some bytes.  \<open>None\<close> when the text is well-formed.\<close>

fun unescape_check :: "string \<Rightarrow> encoding \<Rightarrow> url_error option" where
  "unescape_check [] mode = None"
| "unescape_check (c # cs) mode =
     (if c = CHR ''%'' then
        (case cs of
           h1 # h2 # rest \<Rightarrow>
             if \<not> ishex h1 \<or> \<not> ishex h2 then Some (EscapeError (take 3 (c # cs)))
             else if mode = encodeHost \<and> unhex h1 < 8 \<and> [c, h1, h2] \<noteq> ''%25''
               then Some (EscapeError [c, h1, h2])
             else if mode = encodeZone \<and> [c, h1, h2] \<noteq> ''%25''
                     \<and> char_of (unhex h1 * 16 + unhex h2) \<noteq> CHR '' ''
                     \<and> shouldEscape (char_of (unhex h1 * 16 + unhex h2)) encodeHost
               then Some (EscapeError [c, h1, h2])
             else unescape_check rest mode
         | _ \<Rightarrow> Some (EscapeError (take 3 (c # cs))))
      else if c = CHR ''+'' then unescape_check cs mode
      else if (mode = encodeHost \<or> mode = encodeZone) \<and> of_char c < (128::nat)
              \<and> shouldEscape c encodeHost
        then Some (InvalidHostError [c])
      else unescape_check cs mode)"

text \<open>Second pass: decode.  It runs on checked text only.\<close>

fun unescape_decode :: "string \<Rightarrow> encoding \<Rightarrow> string" where
  "unescape_decode (c # h1 # h2 # rest) mode =
     (if c = CHR ''%'' then char_of (unhex h1 * 16 + unhex h2) # unescape_decode rest mode
      else if c = CHR ''+'' \<and> mode = encodeQueryComponent
        then CHR '' '' # unescape_decode (h1 # h2 # rest) mode
      else c # unescape_decode (h1 # h2 # rest) mode)"
| "unescape_decode (c # cs) mode =
     (if c = CHR ''+'' \<and> mode = encodeQueryComponent then CHR '' '' # unescape_decode cs mode
      else c # unescape_decode cs mode)"
| "unescape_decode [] mode = []"

definition unescape :: "string \<Rightarrow> encoding \<Rightarrow> url_error + string" where
  "unescape s mode =
     (case unescape_check s mode of
        Some e \<Rightarrow> Inl e
      | None \<Rightarrow> Inr (unescape_decode s mode))"

text \<open>\<^verbatim>\<open>escape(s, mode)\<close>.\<close>

fun escape :: "string \<Rightarrow> encoding \<Rightarrow> string" where
  "escape [] mode = []"
| "escape (c # cs) mode =
     (if shouldEscape c mode then
        (if c = CHR '' '' \<and> mode = encodeQueryComponent then CHR ''+'' # escape cs mode
         else CHR ''%'' # upperhex (of_char c div 16) # upperhex (of_char c mod 16)
                # escape cs mode)
      else c # escape cs mode)"

text \<open>\<^verbatim>\<open>validEncoded(s, mode)\<close>.\<close>

definition validEncoded :: "string \<Rightarrow> encoding \<Rightarrow> bool" where
  "validEncoded s mode =
     list_all (\<lambda>c. c \<in> set ''!$&'()*+,;=:@[]%'' \<or> \<not> shouldEscape c mode) s"

subsection \<open>Package net/url: parsing\<close>

text \<open>\<^verbatim>\<open>type Userinfo\<close> and \<^verbatim>\<open>type URL\<close>; a nil \<^verbatim>\<open>*Userinfo\<close> is \<open>None\<close>.\<close>

record Userinfo =
  Username :: string
  Password :: string
  PasswordSet :: bool

record URL =
  Scheme :: string
  Opaque :: string
  User :: "Userinfo option"
  Host :: string
  Path :: string
  RawPath :: string
  OmitHost :: bool
  ForceQuery :: bool
  RawQuery :: string
  Fragment :: string
  RawFragment :: string

definition new_URL :: URL where
  "new_URL = \<lparr>Scheme = [], Opaque = [], User = None, Host = [], Path = [], RawPath = [],
     OmitHost = False, ForceQuery = False, RawQuery = [], Fragment = [], RawFragment = []\<rparr>"

text \<open>\<^verbatim>\<open>stringContainsCTLByte\<close>.\<close>

definition stringContainsCTLByte :: "string \<Rightarrow> bool" where
  "stringContainsCTLByte s = (\<exists>c \<in> set s. c < CHR '' '' \<or> c = char_of (127::nat))"

text \<open>\<^verbatim>\<open>getScheme(rawURL)\<close>: the loop over the bytes, with the bytes already passed
  (\<^verbatim>\<open>rawURL[:i]\<close>) as its first argument; \<^verbatim>\<open>i == 0\<close> is \<open>pre = []\<close>.\<close>

fun getScheme_loop :: "string \<Rightarrow> string \<Rightarrow> url_error + (string \<times> string)" where
  "getScheme_loop pre [] = Inr ([], pre)"
| "getScheme_loop pre (c # cs) =
     (if isLower c \<or> isUpper c then getScheme_loop (pre @ [c]) cs
      else if isDigit c \<or> c = CHR ''+'' \<or> c = CHR ''-'' \<or> c = CHR ''.'' then
        (if pre = [] then Inr ([], c # cs) else getScheme_loop (pre @ [c]) cs)
      else if c = CHR '':'' then
        (if pre = [] then Inl MissingProtocolScheme else Inr (pre, cs))
      else Inr ([], pre @ c # cs))"

definition getScheme :: "string \<Rightarrow> url_error + (string \<times> string)" where
  "getScheme rawURL = getScheme_loop [] rawURL"

text \<open>\<^verbatim>\<open>validOptionalPort\<close>, \<^verbatim>\<open>validUserinfo\<close>.\<close>

definition validOptionalPort :: "string \<Rightarrow> bool" where
  "validOptionalPort port =
     (case port of
        [] \<Rightarrow> True
      | c # ds \<Rightarrow> c = CHR '':'' \<and> list_all isDigit ds)"

definition validUserinfo :: "string \<Rightarrow> bool" where
  "validUserinfo s = list_all (\<lambda>r. isAlnum r \<or> r \<in> set ''-._:~!$&'()*+,;=%@'') s"

text \<open>\<^verbatim>\<open>parseHost(host)\<close>.\<close>

definition parseHost :: "string \<Rightarrow> url_error + string" where
  "parseHost host =
     (if HasPrefix host ''['' then
        (case LastIndex host (CHR '']'') of
           None \<Rightarrow> Inl MissingBracket
         | Some i \<Rightarrow>
             if \<not> validOptionalPort (drop (i + 1) host) then Inl (InvalidPort (drop (i + 1) host))
             else
               (case Index (take i host) ''%25'' of
                  Some zone \<Rightarrow>
                    (case unescape (take zone host) encodeHost of
                       Inl e \<Rightarrow> Inl e
                     | Inr host1 \<Rightarrow>
                         (case unescape (drop zone (take i host)) encodeZone of
                            Inl e \<Rightarrow> Inl e
                          | Inr host2 \<Rightarrow>
                              (case unescape (drop i host) encodeHost of
                                 Inl e \<Rightarrow> Inl e
                               | Inr host3 \<Rightarrow> Inr (host1 @ host2 @ host3))))
                | None \<Rightarrow> unescape host encodeHost))
      else
        (case LastIndex host (CHR '':'') of
           Some i \<Rightarrow>
             if \<not> validOptionalPort (drop i host) then Inl (InvalidPort (drop i host))
             else unescape host encodeHost
         | None \<Rightarrow> unescape host encodeHost))"

text \<open>\<^verbatim>\<open>parseAuthority(authority)\<close>.\<close>

definition parseUserinfo :: "string \<Rightarrow> url_error + Userinfo" where
  "parseUserinfo userinfo =
     (if \<not> validUserinfo userinfo then Inl InvalidUserinfo
      else if \<not> Contains userinfo (CHR '':'') then
        (case unescape userinfo encodeUserPassword of
           Inl e \<Rightarrow> Inl e
         | Inr u \<Rightarrow> Inr \<lparr>Username = u, Password = [], PasswordSet = False\<rparr>)
      else
        (case Cut userinfo (CHR '':'') of
           (name, pass, _) \<Rightarrow>
             (case unescape name encodeUserPassword of
                Inl e \<Rightarrow> Inl e
              | Inr u \<Rightarrow>
                  (case unescape pass encodeUserPassword of
                     Inl e \<Rightarrow> Inl e
                   | Inr pw \<Rightarrow> Inr \<lparr>Username = u, Password = pw, PasswordSet = True\<rparr>))))"

definition parseAuthority :: "string \<Rightarrow> url_error + (Userinfo option \<times> string)" where
  "parseAuthority authority =
     (case LastIndex authority (CHR ''@'') of
        None \<Rightarrow>
          (case parseHost authority of
             Inl e \<Rightarrow> Inl e
           | Inr h \<Rightarrow> Inr (None, h))
      | Some i \<Rightarrow>
          (case parseHost (drop (i + 1) authority) of
             Inl e \<Rightarrow> Inl e
           | Inr h \<Rightarrow>
               (case parseUserinfo (take i authority) of
                  Inl e \<Rightarrow> Inl e
                | Inr ui \<Rightarrow> Inr (Some ui, h))))"

text \<open>\<^verbatim>\<open>(*URL).setPath\<close> and \<^verbatim>\<open>(*URL).setFragment\<close>: the decoded text, and the raw text
  only where it is not the default encoding of the decoded one.\<close>

definition setPath :: "URL \<Rightarrow> string \<Rightarrow> url_error + URL" where
  "setPath u p =
     (case unescape p encodePath of
        Inl e \<Rightarrow> Inl e
      | Inr path \<Rightarrow>
          Inr (u\<lparr>Path := path, RawPath := (if p = escape path encodePath then [] else p)\<rparr>))"

definition setFragment :: "URL \<Rightarrow> string \<Rightarrow> url_error + URL" where
  "setFragment u f =
     (case unescape f encodeFragment of
        Inl e \<Rightarrow> Inl e
      | Inr frag \<Rightarrow>
          Inr (u\<lparr>Fragment := frag,
                 RawFragment := (if f = escape frag encodeFragment then [] else f)\<rparr>))"

text \<open>\<^verbatim>\<open>parse(rawURL, viaRequest)\<close> with \<^verbatim>\<open>viaRequest = false\<close>, as \<^verbatim>\<open>url.Parse\<close> calls it.\<close>

definition parse_query :: "URL \<Rightarrow> string \<Rightarrow> URL \<times> string" where
  "parse_query u rest =
     (if HasSuffix rest ''?'' \<and> Count rest (CHR ''?'') = 1
      then (u\<lparr>ForceQuery := True\<rparr>, butlast rest)
      else (case Cut rest (CHR ''?'') of (r, q, _) \<Rightarrow> (u\<lparr>RawQuery := q\<rparr>, r)))"

definition parse_authority_path :: "URL \<Rightarrow> string \<Rightarrow> url_error + URL" where
  "parse_authority_path u rest =
     (if (Scheme u \<noteq> [] \<or> \<not> HasPrefix rest ''///'') \<and> HasPrefix rest ''//'' then
        (let a = drop 2 rest;
             authority = takeWhile (\<lambda>c. c \<noteq> CHR ''/'') a;
             rest' = dropWhile (\<lambda>c. c \<noteq> CHR ''/'') a
         in case parseAuthority authority of
              Inl e \<Rightarrow> Inl e
            | Inr (ui, h) \<Rightarrow> setPath (u\<lparr>User := ui, Host := h\<rparr>) rest')
      else if Scheme u \<noteq> [] \<and> HasPrefix rest ''/'' then setPath (u\<lparr>OmitHost := True\<rparr>) rest
      else setPath u rest)"

definition parse :: "string \<Rightarrow> url_error + URL" where
  "parse rawURL =
     (if stringContainsCTLByte rawURL then Inl InvalidControlCharacter
      else if rawURL = ''*'' then Inr (new_URL\<lparr>Path := ''*''\<rparr>)
      else
        (case getScheme rawURL of
           Inl e \<Rightarrow> Inl e
         | Inr (scheme, rest0) \<Rightarrow>
             (case parse_query (new_URL\<lparr>Scheme := ToLower scheme\<rparr>) rest0 of
                (u, rest) \<Rightarrow>
                  if \<not> HasPrefix rest ''/'' \<and> Scheme u \<noteq> [] then Inr (u\<lparr>Opaque := rest\<rparr>)
                  else if \<not> HasPrefix rest ''/''
                          \<and> Contains (fst (Cut rest (CHR ''/''))) (CHR '':'')
                    then Inl FirstPathSegmentColon
                  else parse_authority_path u rest)))"

text \<open>\<^verbatim>\<open>url.Parse(rawURL)\<close>: the fragment is cut off first.\<close>

definition url_Parse :: "string \<Rightarrow> url_error + URL" where
  "url_Parse rawURL =
     (case Cut rawURL (CHR ''#'') of
        (u, frag, _) \<Rightarrow>
          (case parse u of
             Inl e \<Rightarrow> Inl e
           | Inr url \<Rightarrow> if frag = [] then Inr url else setFragment url frag))"

subsection \<open>Package net/url: printing\<close>

text \<open>\<^verbatim>\<open>(*URL).EscapedPath\<close>, \<^verbatim>\<open>(*URL).EscapedFragment\<close>, \<^verbatim>\<open>(*Userinfo).String\<close>.\<close>

definition EscapedPath :: "URL \<Rightarrow> string" where
  "EscapedPath u =
     (if RawPath u \<noteq> [] \<and> validEncoded (RawPath u) encodePath
         \<and> unescape (RawPath u) encodePath = Inr (Path u)
      then RawPath u
      else if Path u = ''*'' then ''*''
      else escape (Path u) encodePath)"

definition EscapedFragment :: "URL \<Rightarrow> string" where
  "EscapedFragment u =
     (if RawFragment u \<noteq> [] \<and> validEncoded (RawFragment u) encodeFragment
         \<and> unescape (RawFragment u) encodeFragment = Inr (Fragment u)
      then RawFragment u
      else escape (Fragment u) encodeFragment)"

definition Userinfo_String :: "Userinfo \<Rightarrow> string" where
  "Userinfo_String ui =
     escape (Username ui) encodeUserPassword
       @ (if PasswordSet ui then CHR '':'' # escape (Password ui) encodeUserPassword else [])"

text \<open>\<^verbatim>\<open>(*URL).String\<close>.  The buffer is built in four parts: scheme, authority, path
  (with the \<^verbatim>\<open>/\<close> or \<^verbatim>\<open>./\<close> that keeps it apart from what precedes), query and fragment.\<close>

definition String_authority :: "URL \<Rightarrow> string" where
  "String_authority u =
     (if Scheme u \<noteq> [] \<or> Host u \<noteq> [] \<or> User u \<noteq> None then
        (if OmitHost u \<and> Host u = [] \<and> User u = None then []
         else (if Host u \<noteq> [] \<or> Path u \<noteq> [] \<or> User u \<noteq> None then ''//'' else [])
              @ (case User u of None \<Rightarrow> [] | Some ui \<Rightarrow> Userinfo_String ui @ ''@'')
              @ (if Host u \<noteq> [] then escape (Host u) encodeHost else []))
      else [])"

definition String_path :: "URL \<Rightarrow> string \<Rightarrow> string" where
  "String_path u buf =
     (let path = EscapedPath u;
          buf1 = (if path \<noteq> [] \<and> hd path \<noteq> CHR ''/'' \<and> Host u \<noteq> [] then buf @ ''/'' else buf);
          buf2 = (if buf1 = [] \<and> Contains (fst (Cut path (CHR ''/''))) (CHR '':'')
                  then buf1 @ ''./'' else buf1)
      in buf2 @ path)"

definition URL_String :: "URL \<Rightarrow> string" where
  "URL_String u =
     (let buf = (if Scheme u \<noteq> [] then Scheme u @ '':'' else []);
          buf = (if Opaque u \<noteq> [] then buf @ Opaque u
                 else String_path u (buf @ String_authority u));
          buf = (if ForceQuery u \<or> RawQuery u \<noteq> [] then buf @ ''?'' @ RawQuery u else buf);
          buf = (if Fragment u \<noteq> [] then buf @ ''#'' @ EscapedFragment u else buf)
      in buf)"

subsection \<open>Package path/filepath (Unix)\<close>

text \<open>\<^verbatim>\<open>filepath.Clean\<close> where the separator is \<^verbatim>\<open>/\<close> and there are no volume names.  The
  loop reads the rest of the path and writes to the buffer \<open>out\<close>; \<open>dotdot\<close> is the index in
  the buffer below which \<^verbatim>\<open>..\<close> may not remove anything.\<close>

function backtrack :: "string \<Rightarrow> nat \<Rightarrow> nat \<Rightarrow> nat" where
  "backtrack out dotdot w =
     (if w > dotdot \<and> out ! w \<noteq> CHR ''/'' then backtrack out dotdot (w - 1) else w)"
  by pat_completeness auto
termination
  by (relation "measure (\<lambda>(out, dotdot, w). w)") auto

declare backtrack.simps [simp del]

function Clean_loop :: "bool \<Rightarrow> string \<Rightarrow> string \<Rightarrow> nat \<Rightarrow> string" where
  "Clean_loop rooted path out dotdot =
     (case path of
        [] \<Rightarrow> out
      | c # cs \<Rightarrow>
          if c = CHR ''/'' then Clean_loop rooted cs out dotdot
          else if c = CHR ''.'' \<and> (cs = [] \<or> HasPrefix cs ''/'') then Clean_loop rooted cs out dotdot
          else if c = CHR ''.'' \<and> (cs = ''.'' \<or> HasPrefix cs ''./'') then
            (if length out > dotdot
               then Clean_loop rooted (tl cs) (take (backtrack out dotdot (length out - 1)) out) dotdot
             else if \<not> rooted
               then Clean_loop rooted (tl cs) ((if out \<noteq> [] then out @ ''/'' else out) @ ''..'')
                      (length ((if out \<noteq> [] then out @ ''/'' else out) @ ''..''))
             else Clean_loop rooted (tl cs) out dotdot)
          else
            Clean_loop rooted (dropWhile (\<lambda>x. x \<noteq> CHR ''/'') cs)
              ((if rooted \<and> length out \<noteq> 1 \<or> \<not> rooted \<and> length out \<noteq> 0 then out @ ''/'' else out)
                 @ c # takeWhile (\<lambda>x. x \<noteq> CHR ''/'') cs)
              dotdot)"
  by pat_completeness auto
termination
proof (relation "measure (\<lambda>(rooted, path, out, dotdot). length path)", goal_cases)
  case (7 rooted path out dotdot c cs)
  have "length (dropWhile (\<lambda>x. x \<noteq> CHR ''/'') cs) \<le> length cs"
    by (rule length_dropWhile_le)
  with 7(1) show ?case by simp
qed simp_all

declare Clean_loop.simps [simp del]

definition Clean :: "string \<Rightarrow> string" where
  "Clean path =
     (case path of
        [] \<Rightarrow> ''.''
      | c # cs \<Rightarrow>
          (let rooted = (c = CHR ''/'');
               out = (if rooted then Clean_loop True cs ''/'' 1 else Clean_loop False path [] 0)
           in if out = [] then ''.'' else out))"

text \<open>\<^verbatim>\<open>filepath.Join(elem...)\<close>: leading empty elements are ignored, the rest is joined
  with the separator and cleaned.\<close>

fun filepath_Join :: "string list \<Rightarrow> string" where
  "filepath_Join [] = []"
| "filepath_Join (e # es) = (if e \<noteq> [] then Clean (Join (e # es) (CHR ''/'')) else filepath_Join es)"

text \<open>\<^verbatim>\<open>filepath.ToSlash\<close> replaces the separator by \<^verbatim>\<open>/\<close>: nothing to do on Unix.\<close>

definition ToSlash :: "string \<Rightarrow> string" where
  "ToSlash path = path"

section \<open>main.go\<close>

subsection \<open>Errors, panics and the matched package\<close>

text \<open>A function returns, or the program stops in it: with a run-time panic or through
  \<^verbatim>\<open>os.Exit\<close>.\<close>

datatype panic = SliceBoundsOutOfRange | IndexOutOfRange | NilPointerDereference

datatype 'a outcome = Panics panic | Exits int | Returns 'a

text \<open>The error values of the program: \<^verbatim>\<open>errors.New\<close> with its message, the two wrapping
  \<^verbatim>\<open>fmt.Errorf\<close> calls, the error that the template package makes of a panic in a method
  that a template calls, and the errors that the operating system, git, the go tool and the
  GitHub API report.\<close>

datatype error =
    errors_New string
  | invalid_URL url_error
  | writing_CNAME_file error
  | error_calling_ImportPrefix panic
  | external string

text \<open>\<^verbatim>\<open>type vanityImport struct\<close>.\<close>

record vanityImport =
  Import :: string
  RepoURL :: string
  pathLen :: int

subsection \<open>vanityImport.ImportPrefix and vanityImport.htmlPath\<close>

text \<open>The slice expression \<^verbatim>\<open>importPathSegments[:len(importPathSegments)-i.pathLen]\<close> panics
  unless its bound lies between 0 and the capacity of the slice, which for the result of
  \<^verbatim>\<open>strings.Split\<close> is its length.  \<^verbatim>\<open>pathLen\<close> is a Go \<^verbatim>\<open>int\<close>; a negative one makes the
  bound exceed the length or wrap around to a negative number, and both panic, so the
  mathematical difference decides.\<close>

definition ImportPrefix :: "vanityImport \<Rightarrow> string outcome" where
  "ImportPrefix i =
     (case url_Parse (Import i) of
        Inl err \<Rightarrow> Returns []
      | Inr importURL \<Rightarrow>
          (let importPathSegments = Split (Path importURL) (CHR ''/'');
               hi = int (length importPathSegments) - pathLen i
           in if hi < 0 \<or> int (length importPathSegments) < hi then Panics SliceBoundsOutOfRange
              else Returns (URL_String
                     (importURL\<lparr>Path := Join (take (nat hi) importPathSegments) (CHR ''/'')\<rparr>))))"

definition htmlPath :: "vanityImport \<Rightarrow> string \<Rightarrow> string \<Rightarrow> string" where
  "htmlPath i base dir = filepath_Join [dir, TrimPrefix (Import i) base] @ ''.html''"

subsection \<open>getVanityPackages\<close>

text \<open>What the world answers while one repository is extracted: the temporary directory,
  the resolution of symbolic links, the run of \<^verbatim>\<open>git clone --depth=1 url tmpDir\<close>, and the run
  of \<^verbatim>\<open>go list -f={{.ImportComment}}:{{.Dir}} ./...\<close> in a directory, with the lines its
  scanner yields.  The deferred removal of the temporary directory changes the file system
  only and is left out.\<close>

record go_list_run =
  StdoutPipe :: "error option"
  Start :: "error option"
  Scan :: "string list"
  Err :: "error option"
  Wait :: "error option"

record extraction =
  TempDir :: "error + string"
  EvalSymlinks :: "string \<Rightarrow> error + string"
  git_clone :: "string \<Rightarrow> string \<Rightarrow> error option"
  go_list :: "string \<Rightarrow> go_list_run"


text \<open>Lines 276 to 280: the depth of the package directory below the clone.  The cutset
  of \<^verbatim>\<open>TrimLeft\<close> is the slash and the backslash (byte \<open>0x5C\<close>).\<close>

definition pathLen_of :: "string \<Rightarrow> string \<Rightarrow> int" where
  "pathLen_of tmpDir dir =
     (if dir \<noteq> tmpDir
      then int (length (Split (ToSlash (TrimLeft (TrimPrefix dir tmpDir) [CHR ''/'', CHR 0x5C])) (CHR ''/'')))
      else 0)"

text \<open>Lines 263 to 287: the loop over the lines.  \<^verbatim>\<open>s[1]\<close> panics on a line without a
  colon.\<close>

fun scan_loop ::
  "(string \<Rightarrow> error + string) \<Rightarrow> string \<Rightarrow> string \<Rightarrow> string \<Rightarrow> string list
     \<Rightarrow> vanityImport list \<Rightarrow> (error + vanityImport list) outcome" where
  "scan_loop evalSymlinks tmpDir url base [] imports = Returns (Inr imports)"
| "scan_loop evalSymlinks tmpDir url base (line # rest) imports =
     (if \<not> HasPrefix line base then scan_loop evalSymlinks tmpDir url base rest imports
      else
        (case Split line (CHR '':'') of
           importPath # s1 # _ \<Rightarrow>
             (case evalSymlinks s1 of
                Inl err \<Rightarrow> Returns (Inl err)
              | Inr dir \<Rightarrow>
                  scan_loop evalSymlinks tmpDir url base rest
                    (imports @ [\<lparr>Import = importPath, RepoURL = url,
                                  pathLen = pathLen_of tmpDir dir\<rparr>]))
         | _ \<Rightarrow> Panics IndexOutOfRange))"

definition getVanityPackages ::
  "extraction \<Rightarrow> string \<Rightarrow> string \<Rightarrow> (error + vanityImport list) outcome" where
  "getVanityPackages x url base =
     (case TempDir x of
        Inl err \<Rightarrow> Returns (Inl err)
      | Inr tmp \<Rightarrow>
     (case EvalSymlinks x tmp of
        Inl err \<Rightarrow> Returns (Inl err)
      | Inr tmpDir \<Rightarrow>
     (case git_clone x url tmpDir of
        Some err \<Rightarrow> Returns (Inl err)
      | None \<Rightarrow>
     (case StdoutPipe (go_list x tmpDir) of
        Some err \<Rightarrow> Returns (Inl err)
      | None \<Rightarrow>
     (case Start (go_list x tmpDir) of
        Some err \<Rightarrow> Returns (Inl err)
      | None \<Rightarrow>
     (case scan_loop (EvalSymlinks x) tmpDir url base (Scan (go_list x tmpDir)) [] of
        Returns (Inr imports) \<Rightarrow>
          (case Err (go_list x tmpDir) of
             Some err \<Rightarrow> Returns (Inl err)
           | None \<Rightarrow>
          (case Wait (go_list x tmpDir) of
             Some err \<Rightarrow> Returns (Inl err)
           | None \<Rightarrow> Returns (Inr imports)))
      | stopped \<Rightarrow> stopped))))))"

subsection \<open>getPotentialRepos\<close>

text \<open>What the program prints on standard output.\<close>

datatype event =
    List_failed string error
  | Explicitly_listed string string
  | Is_a_fork string string
  | ListLanguages_failed string error
  | Not_a_Go_repository string string
  | Settings string "string list" string bool bool
  | Pulling string
  | Extraction_failed error
  | Found_match string string
  | Found_matching nat
  | Error_creating string error
  | Error_writing string error

text \<open>A repository as the GitHub client reports it, through its getters, and the two
  calls of the client that the program makes.\<close>

record Repository =
  GetName :: string
  GetFork :: bool
  GetLanguage :: string
  GetSVNURL :: string

record github =
  Repositories_List :: "string \<Rightarrow> error + Repository list"
  Repositories_ListLanguages :: "string \<Rightarrow> string \<Rightarrow> error + (string \<rightharpoonup> int)"

text \<open>Lines 180 to 188: explicit repositories are taken as they are and remembered in
  \<^verbatim>\<open>searchRepos\<close>; the other entries are user names.\<close>

fun search_loop ::
  "string list \<Rightarrow> string list \<times> string set \<times> string list
     \<Rightarrow> string list \<times> string set \<times> string list" where
  "search_loop [] acc = acc"
| "search_loop (v # vs) (repoURLs, searchRepos, usernames) =
     (if \<not> Contains v (CHR ''/'') then search_loop vs (repoURLs, searchRepos, usernames @ [v])
      else search_loop vs (repoURLs @ [''https://github.com/'' @ v], insert v searchRepos, usernames))"

text \<open>Lines 197 to 226: the repositories of one user.\<close>

fun repo_loop ::
  "github \<Rightarrow> string set \<Rightarrow> string \<Rightarrow> Repository list \<Rightarrow> string list \<times> event list
     \<Rightarrow> string list \<times> event list" where
  "repo_loop gh searchRepos username [] acc = acc"
| "repo_loop gh searchRepos username (repo # repos) (repoURLs, stdout) =
     (let repoName = GetName repo in
      if username @ ''/'' @ repoName \<in> searchRepos then
        repo_loop gh searchRepos username repos
          (repoURLs, stdout @ [Explicitly_listed username repoName])
      else if GetFork repo then
        repo_loop gh searchRepos username repos (repoURLs, stdout @ [Is_a_fork username repoName])
      else if GetLanguage repo = ''Go'' then
        repo_loop gh searchRepos username repos (repoURLs @ [GetSVNURL repo], stdout)
      else
        (case Repositories_ListLanguages gh username repoName of
           Inl err \<Rightarrow>
             repo_loop gh searchRepos username repos
               (repoURLs, stdout @ [ListLanguages_failed username err])
         | Inr languages \<Rightarrow>
             if languages ''Go'' = None then
               repo_loop gh searchRepos username repos
                 (repoURLs, stdout @ [Not_a_Go_repository username repoName])
             else repo_loop gh searchRepos username repos (repoURLs @ [GetSVNURL repo], stdout)))"

text \<open>Lines 190 to 227: the loop over the user names.\<close>

fun username_loop ::
  "github \<Rightarrow> string set \<Rightarrow> string list \<Rightarrow> string list \<times> event list
     \<Rightarrow> string list \<times> event list" where
  "username_loop gh searchRepos [] acc = acc"
| "username_loop gh searchRepos (username # usernames) (repoURLs, stdout) =
     (case Repositories_List gh username of
        Inl err \<Rightarrow>
          username_loop gh searchRepos usernames (repoURLs, stdout @ [List_failed username err])
      | Inr repos \<Rightarrow>
          username_loop gh searchRepos usernames
            (repo_loop gh searchRepos username repos (repoURLs, stdout)))"

text \<open>\<^verbatim>\<open>getPotentialRepos\<close> returns the URLs and always a nil error; the third component is
  what it printed.\<close>

definition getPotentialRepos ::
  "github \<Rightarrow> string list \<Rightarrow> string list \<times> error option \<times> event list" where
  "getPotentialRepos gh search' =
     (case search_loop search' ([], {}, []) of
        (repoURLs, searchRepos, usernames) \<Rightarrow>
          (case username_loop gh searchRepos usernames (repoURLs, []) of
             (repoURLs', stdout) \<Rightarrow> (repoURLs', None, stdout)))"

subsection \<open>config.Parse\<close>

text \<open>\<^verbatim>\<open>type config struct\<close>; a nil \<^verbatim>\<open>prefixURL\<close> is \<open>None\<close>.\<close>

record config =
  prefix :: string
  prefixURL :: "URL option"
  search :: string
  searchList :: "string list"
  out :: string
  githubToken :: string
  writeCNAME :: bool

text \<open>The method has a pointer receiver: it returns its error and leaves the configuration
  changed, also where it fails.\<close>

definition config_Parse :: "config \<Rightarrow> error option \<times> config" where
  "config_Parse cfg =
     (if prefix cfg = [] then (Some (errors_New ''must provide vanity URL prefix''), cfg)
      else
        (case url_Parse (''//'' @ prefix cfg) of
           Inl err \<Rightarrow> (Some (invalid_URL err), cfg)
         | Inr u \<Rightarrow>
             if search cfg = []
             then (Some (errors_New ''search list must contain at least one entry''),
                   cfg\<lparr>prefixURL := Some u\<rparr>)
             else (None,
                   cfg\<lparr>prefixURL := Some u,
                       searchList := searchList cfg
                         @ filter (\<lambda>e. e \<noteq> []) (map TrimSpace (Split (search cfg) (CHR '','')))\<rparr>)))"

subsection \<open>run and main\<close>

text \<open>The world of one run: the number of command-line arguments, the settings after the
  environment variables and the flags are read, the GitHub client, what happens while each
  repository is extracted (by its URL), and the results of creating a file, of the writes
  to a created file, and of writing the CNAME file.\<close>

record world =
  os_Args :: nat
  flags :: config
  github_Client :: github
  extraction_of :: "string \<Rightarrow> extraction"
  os_Create :: "string \<Rightarrow> error option"
  file_Write :: "string \<Rightarrow> error option"
  WriteFile :: "string \<Rightarrow> string \<Rightarrow> error option"

text \<open>What a run leaves behind: its standard output and the files it wrote, a page for a
  matched package or the CNAME file with its text.\<close>

datatype output_file = Page string vanityImport | CNAME string string

record effects =
  stdout :: "event list"
  written :: "output_file list"

text \<open>\<^verbatim>\<open>tmpl.Execute(f, imprt)\<close>, lines 322 to 330: the template writes its text to the file
  and, for its actions, calls \<^verbatim>\<open>imprt.ImportPrefix\<close> (first) and reads \<^verbatim>\<open>imprt.RepoURL\<close>.
  A write that fails ends the execution with its error; the world answers for the writes
  to one file as a whole.  A panic of the method is recovered by the template package,
  and \<^verbatim>\<open>Execute\<close> returns it as an error (\<^verbatim>\<open>safeCall\<close> in \<^verbatim>\<open>text/template\<close>).\<close>

definition tmpl_Execute :: "world \<Rightarrow> string \<Rightarrow> vanityImport \<Rightarrow> error option" where
  "tmpl_Execute w path imprt =
     (case file_Write w path of
        Some err \<Rightarrow> Some err
      | None \<Rightarrow>
          (case ImportPrefix imprt of
             Panics p \<Rightarrow> Some (error_calling_ImportPrefix p)
           | _ \<Rightarrow> None))"



text \<open>Lines 116 to 130: one page per matched package; a file that cannot be created, or a
  template that cannot be executed into it, is printed and the loop goes on.\<close>

fun emit_loop :: "world \<Rightarrow> config \<Rightarrow> vanityImport list \<Rightarrow> effects \<Rightarrow> effects" where
  "emit_loop w cfg [] fx = fx"
| "emit_loop w cfg (imprt # imports) fx =
     (let path = htmlPath imprt (prefix cfg) (out cfg) in
      case os_Create w path of
        Some err \<Rightarrow> emit_loop w cfg imports (fx\<lparr>stdout := stdout fx @ [Error_creating path err]\<rparr>)
      | None \<Rightarrow>
          (case tmpl_Execute w path imprt of
             Some err \<Rightarrow>
               emit_loop w cfg imports (fx\<lparr>stdout := stdout fx @ [Error_writing path err]\<rparr>)
           | None \<Rightarrow> emit_loop w cfg imports (fx\<lparr>written := written fx @ [Page path imprt]\<rparr>)))"




section \<open>Notions for the properties, and example worlds\<close>

text \<open>A plain import path: every byte is one that URL path escaping keeps as it is (an ASCII
  letter or digit, or one of \<^verbatim>\<open>-_.~$&+,/:;=@\<close>), the first segment has no colon, and the path
  does not start with \<^verbatim>\<open>//\<close>.  Such a path has no scheme, authority, query or fragment.\<close>

definition plain_path :: "string \<Rightarrow> bool" where
  "plain_path P =
     (list_all (\<lambda>c. \<not> shouldEscape c encodePath) P
      \<and> \<not> Contains (fst (Cut P (CHR ''/''))) (CHR '':'')
      \<and> \<not> HasPrefix P ''//'')"

text \<open>An import path with an authority: an optional scheme (a lower-case letter followed
  by lower-case letters, digits, \<^verbatim>\<open>+\<close>, \<^verbatim>\<open>-\<close>, \<^verbatim>\<open>.\<close>) and a colon, then \<^verbatim>\<open>//\<close> and a host of
  ASCII letters, digits, \<^verbatim>\<open>-\<close> and \<^verbatim>\<open>.\<close>, followed by a path that is empty or starts with \<^verbatim>\<open>/\<close>
  and has only bytes that URL path escaping keeps.\<close>

definition plain_scheme :: "string \<Rightarrow> bool" where
  "plain_scheme S =
     (case S of
        [] \<Rightarrow> False
      | c # cs \<Rightarrow> isLower c
          \<and> list_all (\<lambda>c. isLower c \<or> isDigit c \<or> c \<in> set ''+-.'') cs)"

definition plain_host :: "string \<Rightarrow> bool" where
  "plain_host H = (H \<noteq> [] \<and> list_all (\<lambda>c. isAlnum c \<or> c \<in> set ''-.'') H)"

definition authority_text :: "string \<Rightarrow> string \<Rightarrow> string" where
  "authority_text S H = (if S = [] then [] else S @ '':'') @ ''//'' @ H"

definition rooted_path :: "string \<Rightarrow> bool" where
  "rooted_path Q =
     (list_all (\<lambda>c. \<not> shouldEscape c encodePath) Q \<and> (Q = [] \<or> HasPrefix Q ''/''))"

text \<open>Clean file paths: a name is a path element that is not empty, has no slash and is
  neither \<^verbatim>\<open>.\<close> nor \<^verbatim>\<open>..\<close>; a clean relative path is a sequence of names separated by
  single slashes; a clean directory is such a sequence with or without a leading slash; a
  clean rest (of an import path behind the prefix) is empty or such a sequence with or
  without a leading slash.\<close>

definition is_name :: "string \<Rightarrow> bool" where
  "is_name s = (s \<noteq> [] \<and> CHR ''/'' \<notin> set s \<and> s \<noteq> ''.'' \<and> s \<noteq> ''..'')"

definition clean_relative :: "string \<Rightarrow> bool" where
  "clean_relative p = list_all is_name (Split p (CHR ''/''))"

definition clean_dir :: "string \<Rightarrow> bool" where
  "clean_dir dir =
     (case dir of
        [] \<Rightarrow> False
      | c # cs \<Rightarrow> if c = CHR ''/'' then clean_relative cs else clean_relative dir)"

definition clean_rest :: "string \<Rightarrow> bool" where
  "clean_rest rest = (rest = [] \<or> clean_relative (TrimPrefix rest ''/''))"

text \<open>For the loop of \<^verbatim>\<open>filepath.Clean\<close>: the buffer after names are appended to it (a
  separator goes first unless the buffer is empty or is the root slash), and the buffers
  that the loop can hold: behind the root slash, or not starting with a slash nor with the
  element \<^verbatim>\<open>.\<close>.\<close>

definition add_names :: "bool \<Rightarrow> string \<Rightarrow> string \<Rightarrow> string" where
  "add_names rooted buf names =
     (if names = [] then buf
      else (if rooted \<and> length buf \<noteq> 1 \<or> \<not> rooted \<and> length buf \<noteq> 0 then buf @ ''/'' else buf)
             @ names)"

definition clean_buffer :: "bool \<Rightarrow> string \<Rightarrow> bool" where
  "clean_buffer rooted buf =
     (if rooted then HasPrefix buf ''/''
      else \<not> HasPrefix buf ''/'' \<and> buf \<noteq> ''.'' \<and> \<not> HasPrefix buf ''./'')"

text \<open>A repository counts as a Go repository when its primary language is Go or Go occurs
  in its language breakdown.\<close>

definition is_Go :: "github \<Rightarrow> string \<Rightarrow> Repository \<Rightarrow> bool" where
  "is_Go gh username repo =
     (GetLanguage repo = ''Go''
      \<or> (case Repositories_ListLanguages gh username (GetName repo) of
            Inl err \<Rightarrow> False
          | Inr languages \<Rightarrow> languages ''Go'' \<noteq> None))"

text \<open>Example worlds, for evaluating the program: a GitHub account \<^verbatim>\<open>alice\<close> with three
  repositories, the clone of a repository with a package at its root and one in a
  subdirectory, a clone whose only package, in a subdirectory, declares the import path
  \<^verbatim>\<open>pack.ag\<close>, and a clone below a temporary directory whose name has a colon, with one
  package at its root.\<close>

definition example_github :: github where
  "example_github =
     \<lparr>Repositories_List = (\<lambda>username.
        if username = ''alice'' then
          Inr [\<lparr>GetName = ''forkrepo'', GetFork = False, GetLanguage = ''Go'',
                 GetSVNURL = ''https://github.com/alice/forkrepo''\<rparr>,
               \<lparr>GetName = ''mirror'', GetFork = True, GetLanguage = ''Go'',
                 GetSVNURL = ''https://github.com/alice/mirror''\<rparr>,
               \<lparr>GetName = ''tool'', GetFork = False, GetLanguage = ''Go'',
                 GetSVNURL = ''https://github.com/alice/tool''\<rparr>]
        else Inl (external ''404 Not Found'')),
      Repositories_ListLanguages = (\<lambda>username repoName. Inr Map.empty)\<rparr>"

definition example_extraction :: extraction where
  "example_extraction =
     \<lparr>TempDir = Inr ''/tmp/govanity1'', EvalSymlinks = Inr, git_clone = (\<lambda>url dir. None),
      go_list = (\<lambda>dir. \<lparr>StdoutPipe = None, Start = None,
        Scan = [''pack.ag/tftp:/tmp/govanity1'', '':/tmp/govanity1/cmd/internal'',
                ''pack.ag/tftp/netascii:/tmp/govanity1/netascii''],
        Err = None, Wait = None\<rparr>)\<rparr>"

definition colon_extraction :: extraction where
  "colon_extraction =
     \<lparr>TempDir = Inr ''/tmp/govanity1'', EvalSymlinks = Inr, git_clone = (\<lambda>url dir. None),
      go_list = (\<lambda>dir. \<lparr>StdoutPipe = None, Start = None,
        Scan = [''pack.ag:/tmp/govanity1/sub''], Err = None, Wait = None\<rparr>)\<rparr>"


text \<open>A world with three explicit repositories of which the second cannot be cloned.\<close>

definition example_world :: world where
  "example_world =
     \<lparr>os_Args = 4,
      flags = \<lparr>prefix = ''pack.ag'', prefixURL = None, search = ''o/tftp, o/broken, o/other'',
                searchList = [], out = ''out'', githubToken = [], writeCNAME = False\<rparr>,
      github_Client = example_github,
      extraction_of = (\<lambda>url.
        if url = ''https://github.com/o/broken''
          then example_extraction\<lparr>git_clone := (\<lambda>url dir. Some (external ''exit status 128''))\<rparr>
        else if url = ''https://github.com/o/other''
          then example_extraction\<lparr>go_list := (\<lambda>dir. \<lparr>StdoutPipe = None, Start = None,
                 Scan = [''pack.ag/other:/tmp/govanity1''], Err = None, Wait = None\<rparr>)\<rparr>
        else example_extraction),
      os_Create = (\<lambda>path. None),
      file_Write = (\<lambda>path. None),
      WriteFile = (\<lambda>path text. None)\<rparr>"

section \<open>Properties\<close>

subsection \<open>Splitting, joining and prefixes\<close>

lemma Split_not_Nil [simp]: "Split s sep \<noteq> []"
  by (induction s) (auto split: list.splits)

lemma hd_Split: "hd (Split s sep) = takeWhile (\<lambda>c. c \<noteq> sep) s"
  by (induction s) (auto split: list.splits)

lemma Split_fields_subset: "f \<in> set (Split s sep) \<Longrightarrow> set f \<subseteq> set s"
proof (induction s arbitrary: f)
  case Nil
  then show ?case by simp
next
  case (Cons c cs)
  obtain g gs where g: "Split cs sep = g # gs"
    by (cases "Split cs sep") auto
  with Cons.IH have "set g \<subseteq> set cs" "\<And>h. h \<in> set gs \<Longrightarrow> set h \<subseteq> set cs"
    by auto
  with Cons.prems g show ?case
    by (auto split: if_splits)
qed



lemma Split_present: "sep \<in> set s \<Longrightarrow> \<exists>a b more. Split s sep = a # b # more"
proof (induction s)
  case Nil
  then show ?case by simp
next
  case (Cons c cs)
  show ?case
  proof (cases "c = sep")
    case True
    obtain f fs where "Split cs sep = f # fs"
      by (cases "Split cs sep") auto
    with True show ?thesis by simp
  next
    case False
    with Cons obtain a b more where "Split cs sep = a # b # more"
      by auto
    with False show ?thesis by simp
  qed
qed

lemma Join_Split: "Join (Split s sep) sep = s"
proof (induction s)
  case Nil
  show ?case by simp
next
  case (Cons c cs)
  show ?case
  proof (cases "Split cs sep")
    case Nil
    then show ?thesis by simp
  next
    case (Cons f fs)
    with Cons.IH show ?thesis by (cases fs) auto
  qed
qed

lemma set_Join: "set (Join fs sep) \<subseteq> (\<Union>f \<in> set fs. set f) \<union> {sep}"
  by (induction fs sep rule: Join.induct) auto

lemma takeWhile_absent: "sep \<notin> set s \<Longrightarrow> takeWhile (\<lambda>c. c \<noteq> sep) s = s"
  by (induction s) auto

lemma takeWhile_Join:
  "sep \<notin> set f \<Longrightarrow> takeWhile (\<lambda>c. c \<noteq> sep) (Join (f # fs) sep) = f"
  by (cases fs) (simp_all add: takeWhile_absent takeWhile_tail)

lemma HasPrefix_append [simp]: "HasPrefix (p @ s) p"
  by (simp add: HasPrefix_def)

lemma HasPrefix_iff: "HasPrefix s p = (\<exists>r. s = p @ r)"
  by (auto simp: HasPrefix_def) (metis append_take_drop_id)

lemma TrimPrefix_append [simp]: "TrimPrefix (p @ s) p = s"
  by (simp add: TrimPrefix_def)

lemma fst_Cut: "fst (Cut s sep) = takeWhile (\<lambda>c. c \<noteq> sep) s"
  by (simp add: Cut_def takeWhile_absent)

lemma Cut_absent: "sep \<notin> set s \<Longrightarrow> Cut s sep = (s, [], False)"
  by (simp add: Cut_def)

lemma HasPrefix_first_field:
  assumes "sep \<notin> set base"
  shows "HasPrefix (hd (Split line sep)) base = HasPrefix line base"
proof
  assume "HasPrefix (hd (Split line sep)) base"
  then obtain r where "takeWhile (\<lambda>c. c \<noteq> sep) line = base @ r"
    by (auto simp: HasPrefix_iff hd_Split)
  then have "line = base @ r @ dropWhile (\<lambda>c. c \<noteq> sep) line"
    by (metis append.assoc takeWhile_dropWhile_id)
  then show "HasPrefix line base"
    by (auto simp: HasPrefix_iff)
next
  assume "HasPrefix line base"
  then obtain r where l: "line = base @ r"
    by (auto simp: HasPrefix_iff)
  have "takeWhile (\<lambda>c. c \<noteq> sep) (base @ r) = base @ takeWhile (\<lambda>c. c \<noteq> sep) r"
    using assms by (induction base) auto
  with l show "HasPrefix (hd (Split line sep)) base"
    by (simp add: hd_Split)
qed

lemma list_all2_map_eq: "list_all2 (\<lambda>x y. f x = g y) xs ys \<Longrightarrow> map f xs = map g ys"
  by (induction rule: list_all2_induct) auto


subsection \<open>Bytes that a URL path keeps\<close>

lemmas char_class_defs = isAlnum_def isLower_def isUpper_def isDigit_def

lemma shouldEscape_path:
  "shouldEscape c encodePath = (\<not> isAlnum c \<and> c \<notin> set ''-_.~$&+,/:;=@'')"
  unfolding shouldEscape_def by (cases "isAlnum c") auto

lemma isLower_nat: "isLower c = (97 \<le> (of_char c :: nat) \<and> (of_char c :: nat) \<le> 122)"
  by (simp add: isLower_def less_eq_char_def)

lemma isUpper_nat: "isUpper c = (65 \<le> (of_char c :: nat) \<and> (of_char c :: nat) \<le> 90)"
  by (simp add: isUpper_def less_eq_char_def)

lemma isDigit_nat: "isDigit c = (48 \<le> (of_char c :: nat) \<and> (of_char c :: nat) \<le> 57)"
  by (simp add: isDigit_def less_eq_char_def)

lemma isAlnum_nat:
  "isAlnum c \<Longrightarrow> 48 \<le> (of_char c :: nat) \<and> (of_char c :: nat) \<le> 122"
  unfolding isAlnum_def isLower_nat isUpper_nat isDigit_nat by linarith

lemma unescaped_path_byte_nat:
  assumes "\<not> shouldEscape c encodePath"
  shows "36 \<le> (of_char c :: nat)" and "(of_char c :: nat) \<le> 126"
proof -
  from assms consider (alnum) "isAlnum c" | (mark) "c \<in> set ''-_.~$&+,/:;=@''"
    unfolding shouldEscape_path by blast
  then have "36 \<le> (of_char c :: nat) \<and> (of_char c :: nat) \<le> 126"
  proof cases
    case alnum
    from isAlnum_nat [OF alnum] show ?thesis by simp
  next
    case mark
    then show ?thesis by auto
  qed
  then show "36 \<le> (of_char c :: nat)" and "(of_char c :: nat) \<le> 126"
    by simp_all
qed

lemma alnum_examples:
  "\<not> isAlnum (CHR ''#'')" "\<not> isAlnum (CHR ''?'')" "\<not> isAlnum (CHR ''%'')" "\<not> isAlnum (CHR ''*'')"
  "\<not> isAlnum (CHR ''/'')" "\<not> isAlnum (CHR '':'')"
  by (simp_all add: char_class_defs)

lemma unescaped_path_byte:
  assumes "\<not> shouldEscape c encodePath"
  shows "c \<noteq> CHR ''#''" "c \<noteq> CHR ''?''" "c \<noteq> CHR ''%''" "c \<noteq> CHR ''*''"
    "\<not> c < CHR '' ''" "c \<noteq> char_of (127::nat)"
proof -
  show "c \<noteq> CHR ''#''" "c \<noteq> CHR ''?''" "c \<noteq> CHR ''%''" "c \<noteq> CHR ''*''"
    using assms alnum_examples by (auto simp: shouldEscape_path)
  from unescaped_path_byte_nat [OF assms] show "\<not> c < CHR '' ''"
    by (simp add: less_char_def)
  from unescaped_path_byte_nat [OF assms] show "c \<noteq> char_of (127::nat)"
    by auto
qed

lemma slash_unescaped: "\<not> shouldEscape (CHR ''/'') encodePath"
  by (simp add: shouldEscape_path char_class_defs)

lemma unescape_check_no_percent:
  "CHR ''%'' \<notin> set s \<Longrightarrow> unescape_check s encodePath = None"
  by (induction s) auto

lemma unescape_decode_no_percent:
  "CHR ''%'' \<notin> set s \<Longrightarrow> unescape_decode s encodePath = s"
  by (induction s "encodePath" rule: unescape_decode.induct) auto

lemma unescape_no_percent: "CHR ''%'' \<notin> set s \<Longrightarrow> unescape s encodePath = Inr s"
  by (simp add: unescape_def unescape_check_no_percent unescape_decode_no_percent)

lemma escape_unescaped: "list_all (\<lambda>c. \<not> shouldEscape c mode) s \<Longrightarrow> escape s mode = s"
  by (induction s) auto

subsection \<open>Parsing and printing a plain path\<close>

lemma getScheme_loop_no_colon:
  "CHR '':'' \<notin> set (takeWhile (\<lambda>c. c \<noteq> CHR ''/'') s) \<Longrightarrow> getScheme_loop pre s = Inr ([], pre @ s)"
proof (induction s arbitrary: pre)
  case Nil
  show ?case by simp
next
  case (Cons c cs)
  show ?case
  proof (cases "c = CHR ''/''")
    case True
    then show ?thesis by (simp add: char_class_defs)
  next
    case False
    with Cons.prems have c: "c \<noteq> CHR '':''" and r: "CHR '':'' \<notin> set (takeWhile (\<lambda>c. c \<noteq> CHR ''/'') cs)"
      by auto
    from Cons.IH [OF r] c show ?thesis by simp
  qed
qed

lemma parse_plain:
  assumes "plain_path P"
  shows "parse P = Inr (new_URL\<lparr>Path := P\<rparr>)"
proof -
  from assms have b: "\<And>c. c \<in> set P \<Longrightarrow> \<not> shouldEscape c encodePath"
    and e: "list_all (\<lambda>c. \<not> shouldEscape c encodePath) P"
    and c: "CHR '':'' \<notin> set (takeWhile (\<lambda>c. c \<noteq> CHR ''/'') P)"
    and s: "\<not> HasPrefix P ''//''"
    by (auto simp: plain_path_def list_all_iff fst_Cut Contains_def)
  from b have no: "CHR ''#'' \<notin> set P" "CHR ''?'' \<notin> set P" "CHR ''%'' \<notin> set P" "CHR ''*'' \<notin> set P"
    using unescaped_path_byte by blast+
  from b have ctl: "\<not> stringContainsCTLByte P"
    using unescaped_path_byte(5,6) by (auto simp: stringContainsCTLByte_def)
  from no(4) have star: "P \<noteq> ''*''"
    by auto
  have sch: "getScheme P = Inr ([], P)"
    using getScheme_loop_no_colon [OF c, of "[]"] by (simp add: getScheme_def)
  have "\<not> HasSuffix P ''?''"
    using no(2) by (cases P rule: rev_cases) (auto simp: HasSuffix_def)
  then have q: "parse_query (new_URL\<lparr>Scheme := ToLower []\<rparr>) P = (new_URL, P)"
    using no(2) by (simp add: parse_query_def Cut_absent new_URL_def ToLower_def)
  have sp: "setPath new_URL P = Inr (new_URL\<lparr>Path := P\<rparr>)"
    using no(3) e by (simp add: setPath_def unescape_no_percent escape_unescaped new_URL_def)
  have "\<not> HasPrefix P ''///''"
  proof
    assume "HasPrefix P ''///''"
    then obtain r where "P = ''///'' @ r"
      by (auto simp: HasPrefix_iff)
    then have "P = ''//'' @ (''/'' @ r)"
      by simp
    then have "HasPrefix P ''//''"
      unfolding HasPrefix_iff by blast
    with s show False ..
  qed
  then have ap: "parse_authority_path new_URL P = Inr (new_URL\<lparr>Path := P\<rparr>)"
    using s sp by (simp add: parse_authority_path_def new_URL_def)
  show ?thesis
    using ctl star sch q c ap
    by (simp add: parse_def fst_Cut Contains_def new_URL_def)
qed

lemma url_Parse_plain: "plain_path P \<Longrightarrow> url_Parse P = Inr (new_URL\<lparr>Path := P\<rparr>)"
proof -
  assume p: "plain_path P"
  then have "CHR ''#'' \<notin> set P"
    using unescaped_path_byte(1) by (auto simp: plain_path_def list_all_iff)
  with parse_plain [OF p] show ?thesis
    by (simp add: url_Parse_def Cut_absent)
qed

lemma URL_String_plain:
  assumes "list_all (\<lambda>c. \<not> shouldEscape c encodePath) Q"
    and "CHR '':'' \<notin> set (takeWhile (\<lambda>c. c \<noteq> CHR ''/'') Q)"
  shows "URL_String (new_URL\<lparr>Path := Q\<rparr>) = Q"
proof -
  have "EscapedPath (new_URL\<lparr>Path := Q\<rparr>) = Q"
    using assms(1) by (simp add: EscapedPath_def new_URL_def escape_unescaped)
  then have "String_path (new_URL\<lparr>Path := Q\<rparr>) [] = Q"
    using assms(2) by (simp add: String_path_def new_URL_def fst_Cut Contains_def)
  moreover have "String_authority (new_URL\<lparr>Path := Q\<rparr>) = []"
    by (simp add: String_authority_def new_URL_def)
  ultimately show ?thesis
    by (simp add: URL_String_def new_URL_def)
qed

lemma take_Split_plain:
  assumes "plain_path P"
  shows "list_all (\<lambda>c. \<not> shouldEscape c encodePath) (Join (take k (Split P (CHR ''/''))) (CHR ''/''))"
    and "CHR '':'' \<notin> set (takeWhile (\<lambda>c. c \<noteq> CHR ''/'') (Join (take k (Split P (CHR ''/''))) (CHR ''/'')))"
proof -
  from assms have b: "\<And>c. c \<in> set P \<Longrightarrow> \<not> shouldEscape c encodePath"
    and c: "CHR '':'' \<notin> set (takeWhile (\<lambda>c. c \<noteq> CHR ''/'') P)"
    by (auto simp: plain_path_def list_all_iff fst_Cut Contains_def)
  have "\<And>f. f \<in> set (take k (Split P (CHR ''/''))) \<Longrightarrow> set f \<subseteq> set P"
    by (meson Split_fields_subset in_set_takeD)
  with set_Join [of "take k (Split P (CHR ''/''))" "CHR ''/''"]
  have "set (Join (take k (Split P (CHR ''/''))) (CHR ''/'')) \<subseteq> set P \<union> {CHR ''/''}"
    by blast
  with b slash_unescaped
  show "list_all (\<lambda>c. \<not> shouldEscape c encodePath) (Join (take k (Split P (CHR ''/''))) (CHR ''/''))"
    unfolding list_all_iff by blast
  show "CHR '':'' \<notin> set (takeWhile (\<lambda>c. c \<noteq> CHR ''/'') (Join (take k (Split P (CHR ''/''))) (CHR ''/'')))"
  proof (cases "take k (Split P (CHR ''/''))")
    case Nil
    then show ?thesis by simp
  next
    case (Cons f fs)
    then have "f = hd (Split P (CHR ''/''))"
      by (cases k; cases "Split P (CHR ''/'')") auto
    then have f: "f = takeWhile (\<lambda>c. c \<noteq> CHR ''/'') P"
      by (simp add: hd_Split)
    then have "CHR ''/'' \<notin> set f"
      by (auto dest: set_takeWhileD)
    from takeWhile_Join [OF this, of fs] Cons f c show ?thesis
      by simp
  qed
qed

lemma ImportPrefix_plain:
  assumes "plain_path P" and "0 \<le> d" and "d \<le> int (length (Split P (CHR ''/'')))"
  shows "ImportPrefix \<lparr>Import = P, RepoURL = r, pathLen = d\<rparr>
           = Returns (Join (take (length (Split P (CHR ''/'')) - nat d) (Split P (CHR ''/''))) (CHR ''/''))"
proof -
  have n: "nat (int (length (Split P (CHR ''/''))) - d) = length (Split P (CHR ''/'')) - nat d"
    using assms(2) by simp
  show ?thesis
    using assms(2,3) take_Split_plain [OF assms(1), of "length (Split P (CHR ''/'')) - nat d"]
    by (simp add: ImportPrefix_def url_Parse_plain [OF assms(1)] Let_def n URL_String_plain
          del: Split.simps)
qed

subsection \<open>Parsing and printing a path behind a host\<close>

lemma getScheme_loop_scheme:
  "list_all (\<lambda>c. isLower c \<or> isDigit c \<or> c \<in> set ''+-.'') s \<Longrightarrow> pre \<noteq> [] \<Longrightarrow>
     getScheme_loop pre (s @ CHR '':'' # rest) = Inr (pre @ s, rest)"
proof (induction s arbitrary: pre)
  case Nil
  then show ?case by (simp add: char_class_defs)
next
  case (Cons c cs)
  from Cons.prems have "list_all (\<lambda>c. isLower c \<or> isDigit c \<or> c \<in> set ''+-.'') cs"
    by simp
  from Cons.IH [OF this, of "pre @ [c]"] Cons.prems show ?case
    by auto
qed

lemma getScheme_scheme:
  assumes "plain_scheme S"
  shows "getScheme (S @ CHR '':'' # rest) = Inr (S, rest)"
proof -
  from assms obtain c cs where S: "S = c # cs" and c: "isLower c"
    and cs: "list_all (\<lambda>c. isLower c \<or> isDigit c \<or> c \<in> set ''+-.'') cs"
    by (auto simp: plain_scheme_def split: list.splits)
  from getScheme_loop_scheme [OF cs, of "[c]" rest] S c show ?thesis
    by (simp add: getScheme_def)
qed

lemma ToLower_scheme:
  assumes "plain_scheme S"
  shows "ToLower S = S"
proof -
  have "\<not> isUpper c" if "isLower c \<or> isDigit c \<or> c \<in> set ''+-.''" for c
    using that unfolding isLower_nat isUpper_nat isDigit_nat by auto
  moreover from assms have "list_all (\<lambda>c. isLower c \<or> isDigit c \<or> c \<in> set ''+-.'') S"
    by (auto simp: plain_scheme_def split: list.splits)
  ultimately have "\<forall>c \<in> set S. \<not> isUpper c"
    unfolding list_all_iff by blast
  then show ?thesis
    unfolding ToLower_def by (induction S) auto
qed

lemma scheme_bytes_unescaped:
  assumes "plain_scheme S"
  shows "list_all (\<lambda>c. \<not> shouldEscape c encodePath) S"
proof -
  have "\<not> shouldEscape c encodePath" if "isLower c \<or> isDigit c \<or> c \<in> set ''+-.''" for c
    using that unfolding shouldEscape_path isAlnum_def by auto
  moreover from assms have "list_all (\<lambda>c. isLower c \<or> isDigit c \<or> c \<in> set ''+-.'') S"
    by (auto simp: plain_scheme_def split: list.splits)
  ultimately show ?thesis
    unfolding list_all_iff by blast
qed

lemma host_byte:
  assumes "isAlnum c \<or> c \<in> set ''-.''"
  shows "\<not> shouldEscape c encodePath" "\<not> shouldEscape c encodeHost"
    "c \<noteq> CHR ''/''" "c \<noteq> CHR '':''" "c \<noteq> CHR ''@''" "c \<noteq> CHR ''[''" "c \<noteq> CHR ''+''"
proof -
  show "\<not> shouldEscape c encodePath"
    using assms unfolding shouldEscape_path by auto
  show "\<not> shouldEscape c encodeHost"
    using assms unfolding shouldEscape_def by (cases "isAlnum c") auto
  show "c \<noteq> CHR ''/''" "c \<noteq> CHR '':''" "c \<noteq> CHR ''@''" "c \<noteq> CHR ''[''" "c \<noteq> CHR ''+''"
    using assms unfolding isAlnum_def isLower_nat isUpper_nat isDigit_nat by auto
qed

lemma LastIndex_absent: "sep \<notin> set s \<Longrightarrow> LastIndex s sep = None"
  by (induction s) auto

lemma unescape_host:
  assumes "list_all (\<lambda>c. isAlnum c \<or> c \<in> set ''-.'') H"
  shows "unescape H encodeHost = Inr H"
proof -
  from assms have "unescape_check H encodeHost = None"
  proof (induction H)
    case Nil
    show ?case by simp
  next
    case (Cons c cs)
    then have c: "isAlnum c \<or> c \<in> set ''-.''" and cs: "unescape_check cs encodeHost = None"
      by simp_all
    from host_byte(2) [OF c] have "\<not> shouldEscape c encodeHost" .
    moreover have "c \<noteq> CHR ''%''"
      using host_byte(1) [OF c] unescaped_path_byte(3) by blast
    ultimately show ?case
      using cs host_byte(7) [OF c] by simp
  qed
  moreover have "CHR ''%'' \<notin> set H"
    using assms host_byte(1) unescaped_path_byte(3) unfolding list_all_iff by blast
  then have "unescape_decode H encodeHost = H"
    by (induction H "encodeHost" rule: unescape_decode.induct) auto
  ultimately show ?thesis
    by (simp add: unescape_def)
qed

lemma host_bytes:
  assumes "list_all (\<lambda>c. isAlnum c \<or> c \<in> set ''-.'') H"
  shows "CHR ''/'' \<notin> set H" "CHR '':'' \<notin> set H" "CHR ''@'' \<notin> set H" "CHR ''['' \<notin> set H"
    and "list_all (\<lambda>c. \<not> shouldEscape c encodePath) H"
proof -
  have b: "isAlnum c \<or> c \<in> set ''-.''" if "c \<in> set H" for c
    using assms that unfolding list_all_iff by blast
  show "CHR ''/'' \<notin> set H"
    using b host_byte(3) by blast
  show "CHR '':'' \<notin> set H"
    using b host_byte(4) by blast
  show "CHR ''@'' \<notin> set H"
    using b host_byte(5) by blast
  show "CHR ''['' \<notin> set H"
    using b host_byte(6) by blast
  show "list_all (\<lambda>c. \<not> shouldEscape c encodePath) H"
    unfolding list_all_iff using b host_byte(1) by blast
qed

lemma parseAuthority_host:
  assumes "plain_host H"
  shows "parseAuthority H = Inr (None, H)"
proof -
  from assms have h: "list_all (\<lambda>c. isAlnum c \<or> c \<in> set ''-.'') H" and ne: "H \<noteq> []"
    by (simp_all add: plain_host_def)
  have at: "LastIndex H (CHR ''@'') = None"
    using host_bytes(3) [OF h] by (rule LastIndex_absent)
  have colon: "LastIndex H (CHR '':'') = None"
    using host_bytes(2) [OF h] by (rule LastIndex_absent)
  from host_bytes(4) [OF h] ne have bracket: "\<not> HasPrefix H ''[''"
    by (cases H) (auto simp: HasPrefix_def)
  have "parseHost H = Inr H"
    unfolding parseHost_def using bracket colon unescape_host [OF h] by simp
  then show ?thesis
    unfolding parseAuthority_def using at by simp
qed


lemma HasSuffix_absent: "c \<notin> set s \<Longrightarrow> \<not> HasSuffix s [c]"
proof
  assume a: "c \<notin> set s" and "HasSuffix s [c]"
  then have "drop (length s - 1) s = [c]"
    by (simp add: HasSuffix_def)
  then have "c \<in> set (drop (length s - 1) s)"
    by simp
  with a show False
    by (meson in_set_dropD)
qed

lemma takeWhile_host:
  assumes "CHR ''/'' \<notin> set H" and "Q = [] \<or> HasPrefix Q ''/''"
  shows "takeWhile (\<lambda>c. c \<noteq> CHR ''/'') (H @ Q) = H"
    and "dropWhile (\<lambda>c. c \<noteq> CHR ''/'') (H @ Q) = Q"
  using assms by (cases Q; auto simp: HasPrefix_def takeWhile_absent dropWhile_append3 takeWhile_tail
      dropWhile_eq_Nil_conv)+

lemma take_Split_unescaped:
  assumes "list_all (\<lambda>c. \<not> shouldEscape c encodePath) P"
  shows "list_all (\<lambda>c. \<not> shouldEscape c encodePath) (Join (take k (Split P (CHR ''/''))) (CHR ''/''))"
proof -
  have "\<And>f. f \<in> set (take k (Split P (CHR ''/''))) \<Longrightarrow> set f \<subseteq> set P"
    by (meson Split_fields_subset in_set_takeD)
  with set_Join [of "take k (Split P (CHR ''/''))" "CHR ''/''"]
  have "set (Join (take k (Split P (CHR ''/''))) (CHR ''/'')) \<subseteq> set P \<union> {CHR ''/''}"
    by blast
  with assms slash_unescaped show ?thesis
    unfolding list_all_iff by blast
qed

lemma take_Split_rooted:
  assumes "rooted_path Q"
  shows "rooted_path (Join (take k (Split Q (CHR ''/''))) (CHR ''/''))"
proof -
  from assms have u: "list_all (\<lambda>c. \<not> shouldEscape c encodePath) Q"
    and r: "Q = [] \<or> HasPrefix Q ''/''"
    by (simp_all add: rooted_path_def)
  have "Join (take k (Split Q (CHR ''/''))) (CHR ''/'') = []
        \<or> HasPrefix (Join (take k (Split Q (CHR ''/''))) (CHR ''/'')) ''/''"
  proof (cases Q)
    case Nil
    then show ?thesis by (cases k) simp_all
  next
    case (Cons c q)
    with r have c: "c = CHR ''/''"
      by (simp add: HasPrefix_def)
    show ?thesis
    proof (cases k)
      case 0
      then show ?thesis by simp
    next
      case (Suc k')
      with Cons c show ?thesis
        by (cases "take k' (Split q (CHR ''/''))") (simp_all add: HasPrefix_def)
    qed
  qed
  with take_Split_unescaped [OF u, of k] show ?thesis
    by (simp add: rooted_path_def)
qed

lemma setPath_unescaped:
  assumes "list_all (\<lambda>c. \<not> shouldEscape c encodePath) Q"
  shows "setPath u Q = Inr (u\<lparr>Path := Q, RawPath := []\<rparr>)"
proof -
  from assms have "CHR ''%'' \<notin> set Q"
    using unescaped_path_byte(3) unfolding list_all_iff by blast
  with assms show ?thesis
    by (simp add: setPath_def unescape_no_percent escape_unescaped)
qed

lemma authority_bytes:
  assumes "S = [] \<or> plain_scheme S" and "plain_host H" and "rooted_path Q"
  shows "list_all (\<lambda>c. \<not> shouldEscape c encodePath) (authority_text S H @ Q)"
proof -
  have c: "\<not> shouldEscape (CHR '':'') encodePath"
    by (simp add: shouldEscape_path char_class_defs)
  from assms(1) have "list_all (\<lambda>c. \<not> shouldEscape c encodePath) S"
    using scheme_bytes_unescaped by auto
  moreover from assms(2) have "list_all (\<lambda>c. \<not> shouldEscape c encodePath) H"
    using host_bytes(5) by (simp add: plain_host_def)
  moreover from assms(3) have "list_all (\<lambda>c. \<not> shouldEscape c encodePath) Q"
    by (simp add: rooted_path_def)
  ultimately show ?thesis
    using c slash_unescaped by (simp add: authority_text_def)
qed

lemma getScheme_authority:
  assumes "S = [] \<or> plain_scheme S"
  shows "getScheme (authority_text S H @ Q) = Inr (S, ''//'' @ H @ Q)"
proof (cases "S = []")
  case True
  then show ?thesis
    by (simp add: authority_text_def getScheme_def char_class_defs)
next
  case False
  with assms have "plain_scheme S" by simp
  from getScheme_scheme [OF this, of "''//'' @ H @ Q"] False show ?thesis
    by (simp add: authority_text_def)
qed

lemma parse_authority_path_host:
  assumes "plain_host H" and "rooted_path Q"
  shows "parse_authority_path u (''//'' @ H @ Q) = Inr (u\<lparr>User := None, Host := H, Path := Q, RawPath := []\<rparr>)"
proof -
  from assms(1) have h: "list_all (\<lambda>c. isAlnum c \<or> c \<in> set ''-.'') H" and ne: "H \<noteq> []"
    by (simp_all add: plain_host_def)
  from assms(2) have q: "list_all (\<lambda>c. \<not> shouldEscape c encodePath) Q" "Q = [] \<or> HasPrefix Q ''/''"
    by (simp_all add: rooted_path_def)
  from host_bytes(1) [OF h] ne have "\<not> HasPrefix (''//'' @ H @ Q) ''///''"
    by (cases H) (auto simp: HasPrefix_def)
  moreover have "HasPrefix (''//'' @ H @ Q) ''//''"
    by (simp add: HasPrefix_def)
  moreover have "drop 2 (''//'' @ H @ Q) = H @ Q"
    by simp
  ultimately show ?thesis
    unfolding parse_authority_path_def
    using takeWhile_host [OF host_bytes(1) [OF h] q(2)] parseAuthority_host [OF assms(1)]
      setPath_unescaped [OF q(1)]
    by (simp add: Let_def)
qed

lemma url_Parse_authority:
  assumes "S = [] \<or> plain_scheme S" and "plain_host H" and "rooted_path Q"
  shows "url_Parse (authority_text S H @ Q) = Inr (new_URL\<lparr>Scheme := S, Host := H, Path := Q\<rparr>)"
proof -
  let ?P = "authority_text S H @ Q"
  note b = authority_bytes [OF assms]
  then have bb: "\<And>c. c \<in> set ?P \<Longrightarrow> \<not> shouldEscape c encodePath"
    unfolding list_all_iff by blast
  from bb have no: "CHR ''#'' \<notin> set ?P" "CHR ''?'' \<notin> set ?P" "CHR ''*'' \<notin> set ?P"
    using unescaped_path_byte by blast+
  from bb have ctl: "\<not> stringContainsCTLByte ?P"
    using unescaped_path_byte(5,6) by (auto simp: stringContainsCTLByte_def)
  from no(3) have star: "?P \<noteq> ''*''"
    by (metis list.set_intros(1))
  have low: "ToLower S = S"
    using assms(1) ToLower_scheme by (auto simp: ToLower_def)
  from no(2) have q2: "CHR ''?'' \<notin> set (''//'' @ H @ Q)"
    by (auto simp: authority_text_def split: if_splits)
  then have "\<not> HasSuffix (''//'' @ H @ Q) ''?''"
    by (rule HasSuffix_absent)
  then have q: "parse_query (new_URL\<lparr>Scheme := S\<rparr>) (''//'' @ H @ Q)
                  = (new_URL\<lparr>Scheme := S\<rparr>, ''//'' @ H @ Q)"
    using q2 by (simp add: parse_query_def Cut_absent new_URL_def)
  have sl: "HasPrefix (''//'' @ H @ Q) ''/''"
    by (simp add: HasPrefix_def)
  have ap: "parse_authority_path (new_URL\<lparr>Scheme := S\<rparr>) (''//'' @ H @ Q)
              = Inr (new_URL\<lparr>Scheme := S, Host := H, Path := Q\<rparr>)"
    using parse_authority_path_host [OF assms(2,3), of "new_URL\<lparr>Scheme := S\<rparr>"]
    by (simp add: new_URL_def)
  have "parse ?P = Inr (new_URL\<lparr>Scheme := S, Host := H, Path := Q\<rparr>)"
    unfolding parse_def using ctl star getScheme_authority [OF assms(1), of H Q] low q sl ap
    by simp
  with no(1) show ?thesis
    by (simp add: url_Parse_def Cut_absent)
qed

lemma URL_String_authority:
  assumes "S = [] \<or> plain_scheme S" and "plain_host H" and "rooted_path Q"
  shows "URL_String (new_URL\<lparr>Scheme := S, Host := H, Path := Q\<rparr>) = authority_text S H @ Q"
proof -
  from assms(2) have h: "list_all (\<lambda>c. isAlnum c \<or> c \<in> set ''-.'') H" and ne: "H \<noteq> []"
    by (simp_all add: plain_host_def)
  from assms(3) have q: "list_all (\<lambda>c. \<not> shouldEscape c encodePath) Q" "Q = [] \<or> HasPrefix Q ''/''"
    by (simp_all add: rooted_path_def)
  have "list_all (\<lambda>c. \<not> shouldEscape c encodeHost) H"
    using h host_byte(2) unfolding list_all_iff by blast
  then have eh: "escape H encodeHost = H"
    by (rule escape_unescaped)
  have a: "String_authority (new_URL\<lparr>Scheme := S, Host := H, Path := Q\<rparr>) = ''//'' @ H"
    using ne eh by (simp add: String_authority_def new_URL_def)
  have e: "EscapedPath (new_URL\<lparr>Scheme := S, Host := H, Path := Q\<rparr>) = Q"
    using q(1) by (simp add: EscapedPath_def new_URL_def escape_unescaped)
  have p: "String_path (new_URL\<lparr>Scheme := S, Host := H, Path := Q\<rparr>) buf = buf @ Q" if "buf \<noteq> []" for buf
    using q(2) that e by (cases Q) (auto simp: String_path_def Let_def HasPrefix_def)
  have "URL_String (new_URL\<lparr>Scheme := S, Host := H, Path := Q\<rparr>)
          = String_path (new_URL\<lparr>Scheme := S, Host := H, Path := Q\<rparr>) (authority_text S H)"
    using a by (cases "S = []") (simp_all add: URL_String_def new_URL_def authority_text_def Let_def)
  also have "\<dots> = authority_text S H @ Q"
    by (rule p) (simp add: authority_text_def)
  finally show ?thesis .
qed

lemma ImportPrefix_authority:
  assumes "S = [] \<or> plain_scheme S" and "plain_host H" and "rooted_path Q"
    and "0 \<le> d" and "d \<le> int (length (Split Q (CHR ''/'')))"
  shows "ImportPrefix \<lparr>Import = authority_text S H @ Q, RepoURL = r, pathLen = d\<rparr>
           = Returns (authority_text S H
                       @ Join (take (length (Split Q (CHR ''/'')) - nat d) (Split Q (CHR ''/''))) (CHR ''/''))"
proof -
  have n: "nat (int (length (Split Q (CHR ''/''))) - d) = length (Split Q (CHR ''/'')) - nat d"
    using assms(4) by simp
  note s = URL_String_authority [OF assms(1,2) take_Split_rooted [OF assms(3), of "length (Split Q (CHR ''/'')) - nat d"]]
  show ?thesis
    using assms(4,5) s
    by (simp add: ImportPrefix_def url_Parse_authority [OF assms(1,2,3)] Let_def n del: Split.simps)
qed

subsection \<open>The import prefix\<close>

text \<open>
  Claim C1 says that for every declared import path and every depth up to its number of
  segments \<^verbatim>\<open>ImportPrefix\<close> returns the path with its last segments removed.  The path goes
  through \<^verbatim>\<open>url.Parse\<close> and \<^verbatim>\<open>URL.String\<close>, which print it in escaped form: the import path
  \<^verbatim>\<open>pack.ag/a b/c\<close> has three segments, and at depth 1 the result is \<^verbatim>\<open>pack.ag/a%20b\<close>, not
  \<^verbatim>\<open>pack.ag/a b\<close>.
\<close>

theorem ImportPrefix_escapes_counterexample:
  "(0::int) \<le> 1 \<and> 1 \<le> int (length (Split ''pack.ag/a b/c'' (CHR ''/'')))
   \<and> Join (take (length (Split ''pack.ag/a b/c'' (CHR ''/'')) - 1) (Split ''pack.ag/a b/c'' (CHR ''/'')))
         (CHR ''/'') = ''pack.ag/a b''
   \<and> ImportPrefix \<lparr>Import = ''pack.ag/a b/c'', RepoURL = ''https://github.com/o/r'', pathLen = 1\<rparr>
       = Returns ''pack.ag/a%20b''"
  by code_simp

text \<open>
  Claim C1, amended.  Take a plain import path \<open>P\<close> (every byte is one that URL path escaping
  keeps: an ASCII letter or digit or one of \<^verbatim>\<open>-_.~$&+,/:;=@\<close>; no colon in the first segment;
  not starting with \<^verbatim>\<open>//\<close>), or an import path that is a scheme and host, or \<^verbatim>\<open>//\<close> and a
  host, followed by a rooted path \<open>Q\<close> of such bytes.  For every depth \<open>d\<close> from 0 to the
  number of \<^verbatim>\<open>/\<close>-separated segments of the path (\<open>P\<close>, or \<open>Q\<close>), \<^verbatim>\<open>ImportPrefix\<close> returns the
  import path with the last \<open>d\<close> segments of its path removed and the rest joined by \<^verbatim>\<open>/\<close>;
  scheme and host stay in front as they are.
\<close>

theorem ImportPrefix_drops_segments:
  "(plain_path P \<and> 0 \<le> d \<and> d \<le> int (length (Split P (CHR ''/''))) \<longrightarrow>
      ImportPrefix \<lparr>Import = P, RepoURL = r, pathLen = d\<rparr>
        = Returns (Join (take (length (Split P (CHR ''/'')) - nat d) (Split P (CHR ''/''))) (CHR ''/'')))
   \<and> ((S = [] \<or> plain_scheme S) \<and> plain_host H \<and> rooted_path Q
        \<and> 0 \<le> d \<and> d \<le> int (length (Split Q (CHR ''/''))) \<longrightarrow>
      ImportPrefix \<lparr>Import = authority_text S H @ Q, RepoURL = r, pathLen = d\<rparr>
        = Returns (authority_text S H
                    @ Join (take (length (Split Q (CHR ''/'')) - nat d) (Split Q (CHR ''/''))) (CHR ''/'')))"
  using ImportPrefix_plain [of P d r] ImportPrefix_authority [of S H Q d r] by blast

theorem ImportPrefix_drops_segments_witness:
  "plain_path ''example.com/org/repo/sub/pkg''
   \<and> (0::int) \<le> 2 \<and> 2 \<le> int (length (Split ''example.com/org/repo/sub/pkg'' (CHR ''/'')))
   \<and> ImportPrefix \<lparr>Import = ''example.com/org/repo/sub/pkg'', RepoURL = ''https://github.com/o/r'',
                     pathLen = 2\<rparr>
       = Returns ''example.com/org/repo''
   \<and> plain_scheme ''https'' \<and> plain_host ''example.com'' \<and> rooted_path ''/org/repo/sub/pkg''
   \<and> 2 \<le> int (length (Split ''/org/repo/sub/pkg'' (CHR ''/'')))
   \<and> ImportPrefix \<lparr>Import = ''https://example.com/org/repo/sub/pkg'',
                     RepoURL = ''https://github.com/o/r'', pathLen = 2\<rparr>
       = Returns ''https://example.com/org/repo''"
proof -
  have p: "plain_path ''example.com/org/repo/sub/pkg''"
    by code_simp
  have d: "(0::int) \<le> 2" "2 \<le> int (length (Split ''example.com/org/repo/sub/pkg'' (CHR ''/'')))"
    by code_simp+
  have j: "Join (take (length (Split ''example.com/org/repo/sub/pkg'' (CHR ''/'')) - nat 2)
                   (Split ''example.com/org/repo/sub/pkg'' (CHR ''/''))) (CHR ''/'')
             = ''example.com/org/repo''"
    by code_simp
  have a: "plain_scheme ''https''" "plain_host ''example.com''" "rooted_path ''/org/repo/sub/pkg''"
    "2 \<le> int (length (Split ''/org/repo/sub/pkg'' (CHR ''/'')))"
    by code_simp+
  have t: "authority_text ''https'' ''example.com'' @ ''/org/repo/sub/pkg''
             = ''https://example.com/org/repo/sub/pkg''"
    "authority_text ''https'' ''example.com''
       @ Join (take (length (Split ''/org/repo/sub/pkg'' (CHR ''/'')) - nat 2)
                 (Split ''/org/repo/sub/pkg'' (CHR ''/''))) (CHR ''/'')
     = ''https://example.com/org/repo''"
    by code_simp+
  from ImportPrefix_drops_segments
    [of "''example.com/org/repo/sub/pkg''" 2 "''https://github.com/o/r''"
        "''https''" "''example.com''" "''/org/repo/sub/pkg''"] p d a
  have "ImportPrefix \<lparr>Import = ''example.com/org/repo/sub/pkg'', RepoURL = ''https://github.com/o/r'',
                      pathLen = 2\<rparr>
          = Returns (Join (take (length (Split ''example.com/org/repo/sub/pkg'' (CHR ''/'')) - nat 2)
                       (Split ''example.com/org/repo/sub/pkg'' (CHR ''/''))) (CHR ''/''))"
    and "ImportPrefix \<lparr>Import = authority_text ''https'' ''example.com'' @ ''/org/repo/sub/pkg'',
                      RepoURL = ''https://github.com/o/r'', pathLen = 2\<rparr>
          = Returns (authority_text ''https'' ''example.com''
               @ Join (take (length (Split ''/org/repo/sub/pkg'' (CHR ''/'')) - nat 2)
                         (Split ''/org/repo/sub/pkg'' (CHR ''/''))) (CHR ''/''))"
    by blast+
  then have "ImportPrefix \<lparr>Import = ''example.com/org/repo/sub/pkg'', RepoURL = ''https://github.com/o/r'',
                      pathLen = 2\<rparr> = Returns ''example.com/org/repo''"
    and "ImportPrefix \<lparr>Import = ''https://example.com/org/repo/sub/pkg'',
                      RepoURL = ''https://github.com/o/r'', pathLen = 2\<rparr>
          = Returns ''https://example.com/org/repo''"
    unfolding j t by simp_all
  with p d a show ?thesis
    by (intro conjI)
qed

text \<open>
  Claim C2 says that at depth 0 \<^verbatim>\<open>ImportPrefix\<close> returns the import path as it is.  The
  escaped form differs from the path wherever a byte is escaped: \<^verbatim>\<open>pack.ag/a b\<close> comes back
  as \<^verbatim>\<open>pack.ag/a%20b\<close>.
\<close>

theorem ImportPrefix_identity_counterexample:
  "ImportPrefix \<lparr>Import = ''pack.ag/a b'', RepoURL = ''https://github.com/o/r'', pathLen = 0\<rparr>
     = Returns ''pack.ag/a%20b''
   \<and> ''pack.ag/a%20b'' \<noteq> ''pack.ag/a b''"
  by code_simp

text \<open>
  Claim C2, amended.  For every plain import path, and for every import path that is a
  scheme and host, or \<^verbatim>\<open>//\<close> and a host, followed by a rooted path (both as in claim C1),
  \<^verbatim>\<open>ImportPrefix\<close> at depth 0 returns the import path itself.
\<close>

theorem ImportPrefix_identity:
  "(plain_path P \<longrightarrow> ImportPrefix \<lparr>Import = P, RepoURL = r, pathLen = 0\<rparr> = Returns P)
   \<and> ((S = [] \<or> plain_scheme S) \<and> plain_host H \<and> rooted_path Q \<longrightarrow>
        ImportPrefix \<lparr>Import = authority_text S H @ Q, RepoURL = r, pathLen = 0\<rparr>
          = Returns (authority_text S H @ Q))"
  using ImportPrefix_plain [of P 0 r] ImportPrefix_authority [of S H Q 0 r]
  by (simp add: Join_Split)

theorem ImportPrefix_identity_witness:
  "plain_path ''pack.ag/tftp''
   \<and> ImportPrefix \<lparr>Import = ''pack.ag/tftp'', RepoURL = ''https://github.com/vcabbage/go-tftp'',
                     pathLen = 0\<rparr>
       = Returns ''pack.ag/tftp''
   \<and> plain_host ''pack.ag'' \<and> rooted_path ''/tftp''
   \<and> ImportPrefix \<lparr>Import = ''//pack.ag/tftp'', RepoURL = ''https://github.com/vcabbage/go-tftp'',
                     pathLen = 0\<rparr>
       = Returns ''//pack.ag/tftp''"
proof -
  have p: "plain_path ''pack.ag/tftp''"
    by code_simp
  have a: "plain_host ''pack.ag''" "rooted_path ''/tftp''"
    by code_simp+
  have t: "authority_text [] ''pack.ag'' @ ''/tftp'' = ''//pack.ag/tftp''"
    by code_simp
  from ImportPrefix_identity
    [of "''pack.ag/tftp''" "''https://github.com/vcabbage/go-tftp''" "[]" "''pack.ag''" "''/tftp''"] p a
  have "ImportPrefix \<lparr>Import = ''pack.ag/tftp'', RepoURL = ''https://github.com/vcabbage/go-tftp'',
                      pathLen = 0\<rparr> = Returns ''pack.ag/tftp''"
    and "ImportPrefix \<lparr>Import = authority_text [] ''pack.ag'' @ ''/tftp'',
                      RepoURL = ''https://github.com/vcabbage/go-tftp'', pathLen = 0\<rparr>
          = Returns (authority_text [] ''pack.ag'' @ ''/tftp'')"
    by blast+
  then have "ImportPrefix \<lparr>Import = ''pack.ag/tftp'', RepoURL = ''https://github.com/vcabbage/go-tftp'',
                      pathLen = 0\<rparr> = Returns ''pack.ag/tftp''"
    and "ImportPrefix \<lparr>Import = ''//pack.ag/tftp'', RepoURL = ''https://github.com/vcabbage/go-tftp'',
                      pathLen = 0\<rparr> = Returns ''//pack.ag/tftp''"
    unfolding t by simp_all
  with p a show ?thesis
    by (intro conjI)
qed

text \<open>
  Claim C3.  When the declared import path does not parse as a URL, \<^verbatim>\<open>ImportPrefix\<close>
  returns the empty string: it neither panics nor reports an error, whatever the depth.
\<close>

theorem ImportPrefix_unparsable:
  "url_Parse P = Inl e \<Longrightarrow> ImportPrefix \<lparr>Import = P, RepoURL = r, pathLen = d\<rparr> = Returns []"
  by (simp add: ImportPrefix_def)

theorem ImportPrefix_unparsable_witness:
  "url_Parse ''pack.ag/%zz'' = Inl (EscapeError ''%zz'')
   \<and> ImportPrefix \<lparr>Import = ''pack.ag/%zz'', RepoURL = ''https://github.com/o/r'', pathLen = 7\<rparr>
       = Returns []"
proof -
  have h: "url_Parse ''pack.ag/%zz'' = Inl (EscapeError ''%zz'')"
    by code_simp
  show ?thesis
    using h ImportPrefix_unparsable [OF h, of "''https://github.com/o/r''" 7] by simp
qed

text \<open>
  Claim C4 says that \<^verbatim>\<open>ImportPrefix\<close> returns a string for every import path that parses and
  every non-negative depth, also a depth beyond the number of segments.  It does not: the
  import path \<^verbatim>\<open>pack.ag\<close> parses and has one segment, and at depth 2 the slice bound is
  \<open>-1\<close>.
\<close>

theorem ImportPrefix_panics_counterexample:
  "url_Parse ''pack.ag'' = Inr (new_URL\<lparr>Path := ''pack.ag''\<rparr>)
   \<and> (0::int) \<le> 2
   \<and> ImportPrefix \<lparr>Import = ''pack.ag'', RepoURL = ''https://github.com/o/r'', pathLen = 2\<rparr>
       = Panics SliceBoundsOutOfRange"
  by code_simp

text \<open>
  Claim C4, amended.  For an import path that parses, \<^verbatim>\<open>ImportPrefix\<close> returns a string
  exactly when the depth lies between 0 and the number of \<^verbatim>\<open>/\<close>-separated segments of the
  parsed path, and panics with a slice bound out of range for every other depth.
\<close>

theorem ImportPrefix_returns_iff:
  "url_Parse (Import i) = Inr u \<Longrightarrow>
     ((\<exists>s. ImportPrefix i = Returns s)
        = (0 \<le> pathLen i \<and> pathLen i \<le> int (length (Split (Path u) (CHR ''/'')))))
     \<and> ((ImportPrefix i = Panics SliceBoundsOutOfRange)
        = (pathLen i < 0 \<or> int (length (Split (Path u) (CHR ''/''))) < pathLen i))"
  by (auto simp: ImportPrefix_def Let_def)

theorem ImportPrefix_returns_iff_witness:
  "url_Parse ''pack.ag/tftp'' = Inr (new_URL\<lparr>Path := ''pack.ag/tftp''\<rparr>)
   \<and> (\<exists>s. ImportPrefix \<lparr>Import = ''pack.ag/tftp'', RepoURL = ''https://github.com/o/r'', pathLen = 2\<rparr>
            = Returns s)
   \<and> ImportPrefix \<lparr>Import = ''pack.ag/tftp'', RepoURL = ''https://github.com/o/r'', pathLen = 2\<rparr>
       \<noteq> Panics SliceBoundsOutOfRange"
proof -
  have h: "url_Parse (Import \<lparr>Import = ''pack.ag/tftp'', RepoURL = ''https://github.com/o/r'', pathLen = 2\<rparr>)
             = Inr (new_URL\<lparr>Path := ''pack.ag/tftp''\<rparr>)"
    by code_simp
  have n: "length (Split ''pack.ag/tftp'' (CHR ''/'')) = 2"
    by code_simp
  show ?thesis
    using h n ImportPrefix_returns_iff [OF h] by simp
qed

subsection \<open>The packages that getVanityPackages returns\<close>




lemma scan_loop_append:
  "scan_loop ev tmpDir url base lines acc = Returns (Inr pkgs) \<Longrightarrow>
     \<exists>new. pkgs = acc @ new
       \<and> list_all2 (\<lambda>p line. \<exists>dir. 2 \<le> length (Split line (CHR '':''))
                     \<and> ev (Split line (CHR '':'') ! 1) = Inr dir
                     \<and> p = \<lparr>Import = hd (Split line (CHR '':'')), RepoURL = url,
                              pathLen = pathLen_of tmpDir dir\<rparr>)
            new (filter (\<lambda>line. HasPrefix line base) lines)"
proof (induction lines arbitrary: acc)
  case Nil
  then show ?case by simp
next
  case (Cons line rest)
  show ?case
  proof (cases "HasPrefix line base")
    case False
    with Cons show ?thesis by simp
  next
    case True
    with Cons.prems obtain importPath s1 more dir where
      s: "Split line (CHR '':'') = importPath # s1 # more" and d: "ev s1 = Inr dir"
      and r: "scan_loop ev tmpDir url base rest
                (acc @ [\<lparr>Import = importPath, RepoURL = url, pathLen = pathLen_of tmpDir dir\<rparr>])
              = Returns (Inr pkgs)"
      by (auto split: list.splits sum.splits)
    from Cons.IH [OF r] obtain new where
      n: "pkgs = (acc @ [\<lparr>Import = importPath, RepoURL = url, pathLen = pathLen_of tmpDir dir\<rparr>]) @ new"
      and a: "list_all2 (\<lambda>p line. \<exists>dir. 2 \<le> length (Split line (CHR '':''))
                     \<and> ev (Split line (CHR '':'') ! 1) = Inr dir
                     \<and> p = \<lparr>Import = hd (Split line (CHR '':'')), RepoURL = url,
                              pathLen = pathLen_of tmpDir dir\<rparr>)
            new (filter (\<lambda>line. HasPrefix line base) rest)"
      by blast
    show ?thesis
      using True s d n a
      by (intro exI [of _ "\<lparr>Import = importPath, RepoURL = url, pathLen = pathLen_of tmpDir dir\<rparr> # new"])
         auto
  qed
qed

lemma getVanityPackages_scan:
  "getVanityPackages x url base = Returns (Inr pkgs) \<Longrightarrow>
     \<exists>tmp tmpDir. TempDir x = Inr tmp \<and> EvalSymlinks x tmp = Inr tmpDir
       \<and> scan_loop (EvalSymlinks x) tmpDir url base (Scan (go_list x tmpDir)) [] = Returns (Inr pkgs)"
  by (auto simp: getVanityPackages_def split: sum.splits option.splits outcome.splits)

lemma example_run: "getVanityPackages example_extraction ''https://github.com/vcabbage/go-tftp'' ''pack.ag''
     = Returns (Inr [\<lparr>Import = ''pack.ag/tftp'', RepoURL = ''https://github.com/vcabbage/go-tftp'', pathLen = 0\<rparr>,
                     \<lparr>Import = ''pack.ag/tftp/netascii'', RepoURL = ''https://github.com/vcabbage/go-tftp'', pathLen = 1\<rparr>])"
  by code_simp





text \<open>
  Claim C6 says that for every prefix the matched packages have a declared import path
  that starts with the prefix.  The program tests the whole line
  \<^verbatim>\<open>declaredPath:absoluteDir\<close> against the prefix and takes the declared path to end at
  the first colon, so a prefix with a colon matches across the two fields: with the prefix
  \<^verbatim>\<open>pack.ag:\<close>, which \<^verbatim>\<open>config.Parse\<close> accepts, the package that declares \<^verbatim>\<open>pack.ag\<close> is
  returned, and its import path does not start with the prefix.
\<close>

theorem getVanityPackages_colon_counterexample:
  "getVanityPackages colon_extraction ''https://github.com/o/r'' ''pack.ag:''
     = Returns (Inr [\<lparr>Import = ''pack.ag'', RepoURL = ''https://github.com/o/r'', pathLen = 1\<rparr>])
   \<and> \<not> HasPrefix ''pack.ag'' ''pack.ag:''
   \<and> fst (config_Parse \<lparr>prefix = ''pack.ag:'', prefixURL = None, search = ''o/r'', searchList = [],
               out = ''out'', githubToken = [], writeCNAME = False\<rparr>) = None"
  by code_simp

text \<open>
  Claim C6, amended.  For a prefix without a colon: every package that \<^verbatim>\<open>getVanityPackages\<close>
  returns has a declared import path that starts with the prefix, and the returned
  packages are, in order, exactly the reported lines whose declared import path (the text
  before the first colon) starts with the prefix; every other line is skipped.
\<close>

theorem getVanityPackages_matches_prefix:
  assumes "CHR '':'' \<notin> set base" and "getVanityPackages x url base = Returns (Inr pkgs)"
  shows "(\<forall>p \<in> set pkgs. HasPrefix (Import p) base)
         \<and> (\<exists>tmp tmpDir. TempDir x = Inr tmp \<and> EvalSymlinks x tmp = Inr tmpDir
              \<and> map Import pkgs
                  = filter (\<lambda>importPath. HasPrefix importPath base)
                      (map (\<lambda>line. hd (Split line (CHR '':''))) (Scan (go_list x tmpDir))))"
proof -
  from getVanityPackages_scan [OF assms(2)] obtain tmp tmpDir where
    t: "TempDir x = Inr tmp" "EvalSymlinks x tmp = Inr tmpDir"
    and s: "scan_loop (EvalSymlinks x) tmpDir url base (Scan (go_list x tmpDir)) [] = Returns (Inr pkgs)"
    by blast
  from scan_loop_append [OF s] have
    "list_all2 (\<lambda>p line. \<exists>dir. 2 \<le> length (Split line (CHR '':''))
                     \<and> EvalSymlinks x (Split line (CHR '':'') ! 1) = Inr dir
                     \<and> p = \<lparr>Import = hd (Split line (CHR '':'')), RepoURL = url,
                              pathLen = pathLen_of tmpDir dir\<rparr>)
        pkgs (filter (\<lambda>line. HasPrefix line base) (Scan (go_list x tmpDir)))"
    by simp
  then have "list_all2 (\<lambda>p line. Import p = hd (Split line (CHR '':'')))
        pkgs (filter (\<lambda>line. HasPrefix line base) (Scan (go_list x tmpDir)))"
    by (rule list_all2_mono) auto
  then have "map Import pkgs
       = map (\<lambda>line. hd (Split line (CHR '':'')))
           (filter (\<lambda>line. HasPrefix line base) (Scan (go_list x tmpDir)))"
    by (rule list_all2_map_eq)
  also have "\<dots> = filter (\<lambda>importPath. HasPrefix importPath base)
                      (map (\<lambda>line. hd (Split line (CHR '':''))) (Scan (go_list x tmpDir)))"
    using assms(1) by (simp add: filter_map o_def HasPrefix_first_field)
  finally have m: "map Import pkgs
       = filter (\<lambda>importPath. HasPrefix importPath base)
           (map (\<lambda>line. hd (Split line (CHR '':''))) (Scan (go_list x tmpDir)))" .
  have "\<forall>i \<in> set (map Import pkgs). HasPrefix i base"
    unfolding m by simp
  then have "\<forall>p \<in> set pkgs. HasPrefix (Import p) base"
    by simp
  with t m show ?thesis by blast
qed

theorem getVanityPackages_matches_prefix_witness:
  "CHR '':'' \<notin> set ''pack.ag''
   \<and> getVanityPackages example_extraction ''https://github.com/vcabbage/go-tftp'' ''pack.ag''
     = Returns (Inr [\<lparr>Import = ''pack.ag/tftp'', RepoURL = ''https://github.com/vcabbage/go-tftp'', pathLen = 0\<rparr>,
                     \<lparr>Import = ''pack.ag/tftp/netascii'', RepoURL = ''https://github.com/vcabbage/go-tftp'', pathLen = 1\<rparr>])
   \<and> HasPrefix ''pack.ag/tftp'' ''pack.ag'' \<and> HasPrefix ''pack.ag/tftp/netascii'' ''pack.ag''"
proof -
  have c: "CHR '':'' \<notin> set ''pack.ag''"
    by simp
  have h: "getVanityPackages example_extraction ''https://github.com/vcabbage/go-tftp'' ''pack.ag''
     = Returns (Inr [\<lparr>Import = ''pack.ag/tftp'', RepoURL = ''https://github.com/vcabbage/go-tftp'', pathLen = 0\<rparr>,
                     \<lparr>Import = ''pack.ag/tftp/netascii'', RepoURL = ''https://github.com/vcabbage/go-tftp'', pathLen = 1\<rparr>])"
    by code_simp
  from getVanityPackages_matches_prefix [OF c h]
  have "HasPrefix ''pack.ag/tftp'' ''pack.ag'' \<and> HasPrefix ''pack.ag/tftp/netascii'' ''pack.ag''"
    by simp
  with c h show ?thesis
    by (intro conjI) simp_all
qed

subsection \<open>Cleaning a path that ends in names\<close>

lemma HasPrefix_simps:
  "HasPrefix s [] = True"
  "HasPrefix [] (y # ys) = False"
  "HasPrefix (x # xs) (y # ys) = (x = y \<and> HasPrefix xs ys)"
  by (auto simp: HasPrefix_def)

lemma Clean_loop_Nil [simp]: "Clean_loop rooted [] buf dotdot = buf"
  by (simp add: Clean_loop.simps)

lemma Clean_loop_slash [simp]:
  "Clean_loop rooted (CHR ''/'' # p) buf dotdot = Clean_loop rooted p buf dotdot"
  by (simp add: Clean_loop.simps [of rooted "CHR ''/'' # p"])

lemma Clean_loop_name:
  assumes "is_name s" and "t = [] \<or> HasPrefix t ''/''"
  shows "Clean_loop rooted (s @ t) buf dotdot
           = Clean_loop rooted t
               ((if rooted \<and> length buf \<noteq> 1 \<or> \<not> rooted \<and> length buf \<noteq> 0 then buf @ ''/'' else buf) @ s)
               dotdot"
proof -
  from assms(1) obtain c cs where s: "s = c # cs" and c: "c \<noteq> CHR ''/''"
    and cs: "CHR ''/'' \<notin> set cs" and d1: "s \<noteq> ''.''" and d2: "s \<noteq> ''..''"
    by (cases s) (auto simp: is_name_def)
  have tw: "takeWhile (\<lambda>x. x \<noteq> CHR ''/'') (cs @ t) = cs"
    and dw: "dropWhile (\<lambda>x. x \<noteq> CHR ''/'') (cs @ t) = t"
    using cs assms(2) by (cases t; auto simp: HasPrefix_def takeWhile_absent dropWhile_append3
        takeWhile_tail dropWhile_eq_Nil_conv)+
  have dot: "\<not> (c = CHR ''.'' \<and> (cs @ t = [] \<or> HasPrefix (cs @ t) ''/''))"
    using s d1 cs assms(2) by (cases cs) (auto simp: HasPrefix_simps)
  have dotdot: "\<not> (c = CHR ''.'' \<and> (cs @ t = ''.'' \<or> HasPrefix (cs @ t) ''./''))"
  proof
    assume a: "c = CHR ''.'' \<and> (cs @ t = ''.'' \<or> HasPrefix (cs @ t) ''./'')"
    then have "cs = ''.''"
    proof (cases cs)
      case Nil
      with a assms(2) show ?thesis
        by (cases t) (auto simp: HasPrefix_simps)
    next
      case (Cons x xs)
      show ?thesis
      proof (cases xs)
        case Nil
        with Cons a show ?thesis
          by (cases t) (auto simp: HasPrefix_simps)
      next
        case (Cons y ys)
        with \<open>cs = x # xs\<close> a cs show ?thesis
          by (auto simp: HasPrefix_simps)
      qed
    qed
    with a s d2 show False by simp
  qed
  have e: "(c = CHR ''/'') = False"
    "(c = CHR ''.'' \<and> (cs @ t = [] \<or> HasPrefix (cs @ t) ''/'')) = False"
    "(c = CHR ''.'' \<and> (cs @ t = ''.'' \<or> HasPrefix (cs @ t) ''./'')) = False"
    using c dot dotdot by blast+
  show ?thesis
    unfolding s append_Cons
    by (subst Clean_loop.simps) (simp only: list.case e if_False tw dw)
qed


lemma Clean_loop_names:
  assumes "list_all is_name segs" and "segs \<noteq> []" and "rooted \<longrightarrow> buf \<noteq> []"
    and "t = [] \<or> HasPrefix t ''/''"
  shows "Clean_loop rooted (Join segs (CHR ''/'') @ t) buf dotdot
           = Clean_loop rooted t
               ((if rooted \<and> length buf \<noteq> 1 \<or> \<not> rooted \<and> length buf \<noteq> 0 then buf @ ''/'' else buf)
                  @ Join segs (CHR ''/''))
               dotdot"
  using assms
proof (induction segs "CHR ''/''" arbitrary: buf rule: Join.induct)
  case 1
  then show ?case by simp
next
  case (2 s)
  then show ?case
    by (simp add: Clean_loop_name)
next
  case (3 s s' ss)
  let ?buf = "(if rooted \<and> length buf \<noteq> 1 \<or> \<not> rooted \<and> length buf \<noteq> 0 then buf @ ''/'' else buf) @ s"
  from "3.prems" have s: "is_name s" and rest: "list_all is_name (s' # ss)"
    by simp_all
  from s have ne: "s \<noteq> []"
    by (simp add: is_name_def)
  have "Clean_loop rooted (Join (s # s' # ss) (CHR ''/'') @ t) buf dotdot
          = Clean_loop rooted (s @ (CHR ''/'' # Join (s' # ss) (CHR ''/'') @ t)) buf dotdot"
    by simp
  also have "\<dots> = Clean_loop rooted (CHR ''/'' # Join (s' # ss) (CHR ''/'') @ t) ?buf dotdot"
    by (rule Clean_loop_name [OF s]) (simp add: HasPrefix_simps)
  also have "\<dots> = Clean_loop rooted (Join (s' # ss) (CHR ''/'') @ t) ?buf dotdot"
    by simp
  also have "\<dots> = Clean_loop rooted t
        ((if rooted \<and> length ?buf \<noteq> 1 \<or> \<not> rooted \<and> length ?buf \<noteq> 0 then ?buf @ ''/'' else ?buf)
           @ Join (s' # ss) (CHR ''/'')) dotdot"
    using ne "3.prems"(4) by (intro "3.hyps" rest) simp_all
  also have "(if rooted \<and> length ?buf \<noteq> 1 \<or> \<not> rooted \<and> length ?buf \<noteq> 0 then ?buf @ ''/'' else ?buf)
               @ Join (s' # ss) (CHR ''/'')
             = (if rooted \<and> length buf \<noteq> 1 \<or> \<not> rooted \<and> length buf \<noteq> 0 then buf @ ''/'' else buf)
                 @ Join (s # s' # ss) (CHR ''/'')"
    using ne "3.prems"(3) by (cases s; cases buf) auto
  finally show ?case .
qed

lemma backtrack_bounds:
  "dotdot \<le> w \<Longrightarrow>
     dotdot \<le> backtrack buf dotdot w \<and> backtrack buf dotdot w \<le> w
     \<and> (backtrack buf dotdot w = dotdot \<or> buf ! backtrack buf dotdot w = CHR ''/'')"
proof (induction buf dotdot w rule: backtrack.induct)
  case (1 buf dotdot w)
  show ?case
  proof (cases "dotdot < w \<and> buf ! w \<noteq> CHR ''/''")
    case True
    then have e: "backtrack buf dotdot w = backtrack buf dotdot (w - 1)"
      by (subst backtrack.simps) simp
    from True have "dotdot \<le> w - 1"
      by auto
    from "1.IH" [OF True this] show ?thesis
      unfolding e by auto
  next
    case False
    then have e: "backtrack buf dotdot w = w"
      by (subst backtrack.simps) auto
    from False "1.prems" show ?thesis
      unfolding e by auto
  qed
qed

lemma takeWhile_before_slash:
  "takeWhile (\<lambda>x. x \<noteq> CHR ''/'') (cs @ CHR ''/'' # t) = takeWhile (\<lambda>x. x \<noteq> CHR ''/'') cs"
  by (induction cs) auto

lemma dropWhile_before_slash:
  "dropWhile (\<lambda>x. x \<noteq> CHR ''/'') (cs @ CHR ''/'' # t)
     = dropWhile (\<lambda>x. x \<noteq> CHR ''/'') cs @ CHR ''/'' # t"
  by (induction cs) auto

lemma Clean_loop_before_slash:
  "Clean_loop rooted (c # cs @ CHR ''/'' # t) buf dotdot =
     (if c = CHR ''/'' then Clean_loop rooted (cs @ CHR ''/'' # t) buf dotdot
      else if c = CHR ''.'' \<and> (cs = [] \<or> HasPrefix cs ''/'')
        then Clean_loop rooted (cs @ CHR ''/'' # t) buf dotdot
      else if c = CHR ''.'' \<and> (cs = ''.'' \<or> HasPrefix cs ''./'') then
        (if length buf > dotdot
           then Clean_loop rooted (tl cs @ CHR ''/'' # t)
                  (take (backtrack buf dotdot (length buf - 1)) buf) dotdot
         else if \<not> rooted
           then Clean_loop rooted (tl cs @ CHR ''/'' # t)
                  ((if buf \<noteq> [] then buf @ ''/'' else buf) @ ''..'')
                  (length ((if buf \<noteq> [] then buf @ ''/'' else buf) @ ''..''))
         else Clean_loop rooted (tl cs @ CHR ''/'' # t) buf dotdot)
      else
        Clean_loop rooted (dropWhile (\<lambda>x. x \<noteq> CHR ''/'') cs @ CHR ''/'' # t)
          ((if rooted \<and> length buf \<noteq> 1 \<or> \<not> rooted \<and> length buf \<noteq> 0 then buf @ ''/'' else buf)
             @ c # takeWhile (\<lambda>x. x \<noteq> CHR ''/'') cs)
          dotdot)"
proof -
  have a: "(cs @ CHR ''/'' # t = [] \<or> HasPrefix (cs @ CHR ''/'' # t) ''/'') = (cs = [] \<or> HasPrefix cs ''/'')"
    by (cases cs) (simp_all add: HasPrefix_simps)
  have b: "(cs @ CHR ''/'' # t = ''.'' \<or> HasPrefix (cs @ CHR ''/'' # t) ''./'')
             = (cs = ''.'' \<or> HasPrefix cs ''./'')"
  proof (cases cs)
    case Nil
    then show ?thesis by (simp add: HasPrefix_simps)
  next
    case (Cons x xs)
    then show ?thesis by (cases xs) (auto simp: HasPrefix_simps)
  qed
  show ?thesis
  proof (cases "cs = ''.'' \<or> HasPrefix cs ''./''")
    case True
    then have "cs \<noteq> []"
      by (auto simp: HasPrefix_simps)
    then have t: "tl (cs @ CHR ''/'' # t) = tl cs @ CHR ''/'' # t"
      by simp
    show ?thesis
      by (subst Clean_loop.simps)
         (simp only: list.case a b t takeWhile_before_slash dropWhile_before_slash)
  next
    case False
    then have f: "(cs = ''.'' \<or> HasPrefix cs ''./'') = False"
      by simp
    show ?thesis
      by (subst Clean_loop.simps)
         (simp only: list.case a b f takeWhile_before_slash dropWhile_before_slash
            simp_thms if_False)
  qed
qed

lemma Clean_loop_continue:
  assumes N: "N = [] \<or> clean_relative N"
  shows "rooted \<longrightarrow> buf \<noteq> [] \<and> 1 \<le> dotdot \<Longrightarrow>
         Clean_loop rooted (p @ CHR ''/'' # N) buf dotdot
           = add_names rooted (Clean_loop rooted p buf dotdot) N"
proof (induction rooted p buf dotdot rule: Clean_loop.induct)
  case (1 rooted path buf dotdot)
  note inv = "1.prems"
  show ?case
  proof (cases path)
    case Nil
    show ?thesis
    proof (cases "N = []")
      case True
      with Nil show ?thesis by (simp add: add_names_def)
    next
      case False
      with N have n: "list_all is_name (Split N (CHR ''/''))"
        by (simp add: clean_relative_def)
      have "Clean_loop rooted (Join (Split N (CHR ''/'')) (CHR ''/'') @ []) buf dotdot
              = Clean_loop rooted []
                  ((if rooted \<and> length buf \<noteq> 1 \<or> \<not> rooted \<and> length buf \<noteq> 0 then buf @ ''/'' else buf)
                     @ Join (Split N (CHR ''/'')) (CHR ''/'')) dotdot"
        using n inv by (intro Clean_loop_names) simp_all
      with Nil False show ?thesis
        by (simp add: add_names_def Join_Split)
    qed
  next
    case (Cons c cs)
    let ?dot = "c = CHR ''.'' \<and> (cs = [] \<or> HasPrefix cs ''/'')"
    let ?up = "c = CHR ''.'' \<and> (cs = ''.'' \<or> HasPrefix cs ''./'')"
    consider (slash) "c = CHR ''/''"
      | (dot) "c \<noteq> CHR ''/''" "?dot"
      | (up1) "c \<noteq> CHR ''/''" "\<not> ?dot" "?up" "dotdot < length buf"
      | (up2) "c \<noteq> CHR ''/''" "\<not> ?dot" "?up" "\<not> dotdot < length buf" "\<not> rooted"
      | (up3) "c \<noteq> CHR ''/''" "\<not> ?dot" "?up" "\<not> dotdot < length buf" "\<not> \<not> rooted"
      | (name) "c \<noteq> CHR ''/''" "\<not> ?dot" "\<not> ?up"
      by blast
    then show ?thesis
    proof cases
      case slash
      from "1.IH"(1) [OF Cons slash inv] Cons slash show ?thesis
        by simp
    next
      case dot
      have e: "(c = CHR ''/'') = False" "?dot = True"
        using dot by simp_all
      have l: "Clean_loop rooted ((c # cs) @ CHR ''/'' # N) buf dotdot
                 = Clean_loop rooted (cs @ CHR ''/'' # N) buf dotdot"
        by (simp only: append_Cons Clean_loop_before_slash e if_True if_False)
      have r: "Clean_loop rooted (c # cs) buf dotdot = Clean_loop rooted cs buf dotdot"
        by (subst Clean_loop.simps) (simp only: list.case e if_True if_False)
      from "1.IH"(2) [OF Cons dot inv] l r Cons show ?thesis
        by simp
    next
      case up1
      have e: "(c = CHR ''/'') = False" "?dot = False" "?up = True" "(dotdot < length buf) = True"
        using up1 by simp_all
      let ?buf = "take (backtrack buf dotdot (length buf - 1)) buf"
      have l: "Clean_loop rooted ((c # cs) @ CHR ''/'' # N) buf dotdot
                 = Clean_loop rooted (tl cs @ CHR ''/'' # N) ?buf dotdot"
        by (simp only: append_Cons Clean_loop_before_slash e if_True if_False)
      have r: "Clean_loop rooted (c # cs) buf dotdot = Clean_loop rooted (tl cs) ?buf dotdot"
        by (subst Clean_loop.simps) (simp only: list.case e if_True if_False)
      from up1(4) have "dotdot \<le> length buf - 1"
        by simp
      from backtrack_bounds [OF this, of buf] inv up1(4)
      have "rooted \<longrightarrow> ?buf \<noteq> [] \<and> 1 \<le> dotdot"
        by auto
      from "1.IH"(3) [OF Cons up1 this] l r Cons show ?thesis
        by simp
    next
      case up2
      have e: "(c = CHR ''/'') = False" "?dot = False" "?up = True" "(dotdot < length buf) = False" "(\<not> rooted) = True"
        using up2 by simp_all
      let ?buf = "(if buf \<noteq> [] then buf @ ''/'' else buf) @ ''..''"
      have l: "Clean_loop rooted ((c # cs) @ CHR ''/'' # N) buf dotdot
                 = Clean_loop rooted (tl cs @ CHR ''/'' # N) ?buf (length ?buf)"
        by (simp only: append_Cons Clean_loop_before_slash e if_True if_False)
      have r: "Clean_loop rooted (c # cs) buf dotdot = Clean_loop rooted (tl cs) ?buf (length ?buf)"
        by (subst Clean_loop.simps) (simp only: list.case e if_True if_False)
      have "rooted \<longrightarrow> ?buf \<noteq> [] \<and> 1 \<le> length ?buf"
        using up2 by simp
      from "1.IH"(4) [OF Cons up2 this] l r Cons show ?thesis
        by simp
    next
      case up3
      have e: "(c = CHR ''/'') = False" "?dot = False" "?up = True" "(dotdot < length buf) = False" "(\<not> rooted) = False"
        using up3 by simp_all
      have l: "Clean_loop rooted ((c # cs) @ CHR ''/'' # N) buf dotdot
                 = Clean_loop rooted (tl cs @ CHR ''/'' # N) buf dotdot"
        by (simp only: append_Cons Clean_loop_before_slash e if_True if_False)
      have r: "Clean_loop rooted (c # cs) buf dotdot = Clean_loop rooted (tl cs) buf dotdot"
        by (subst Clean_loop.simps) (simp only: list.case e if_True if_False)
      from "1.IH"(5) [OF Cons up3 inv] l r Cons show ?thesis
        by simp
    next
      case name
      have e: "(c = CHR ''/'') = False" "?dot = False" "?up = False"
        using name by simp_all
      let ?buf = "(if rooted \<and> length buf \<noteq> 1 \<or> \<not> rooted \<and> length buf \<noteq> 0 then buf @ ''/'' else buf)
                    @ c # takeWhile (\<lambda>x. x \<noteq> CHR ''/'') cs"
      have l: "Clean_loop rooted ((c # cs) @ CHR ''/'' # N) buf dotdot
                 = Clean_loop rooted (dropWhile (\<lambda>x. x \<noteq> CHR ''/'') cs @ CHR ''/'' # N) ?buf dotdot"
        by (simp only: append_Cons Clean_loop_before_slash e if_True if_False)
      have r: "Clean_loop rooted (c # cs) buf dotdot
                 = Clean_loop rooted (dropWhile (\<lambda>x. x \<noteq> CHR ''/'') cs) ?buf dotdot"
        by (subst Clean_loop.simps) (simp only: list.case e if_True if_False)
      have "rooted \<longrightarrow> ?buf \<noteq> [] \<and> 1 \<le> dotdot"
        using inv by simp
      from "1.IH"(6) [OF Cons name this] l r Cons show ?thesis
        by simp
    qed
  qed
qed

lemma HasPrefix_slash: "HasPrefix s ''/'' = (\<exists>r. s = CHR ''/'' # r)"
  by (cases s) (simp_all add: HasPrefix_simps)

lemma HasPrefix_dot_slash: "HasPrefix s ''./'' = (\<exists>r. s = CHR ''.'' # CHR ''/'' # r)"
proof (cases s)
  case Nil
  then show ?thesis by (simp add: HasPrefix_simps)
next
  case (Cons x xs)
  then show ?thesis by (cases xs) (auto simp: HasPrefix_simps)
qed

lemma clean_buffer_take:
  assumes "clean_buffer rooted buf" and "if rooted then 1 \<le> dotdot else dotdot \<noteq> 1"
    and "dotdot \<le> w" and "w < length buf" and "w = dotdot \<or> buf ! w = CHR ''/''"
  shows "clean_buffer rooted (take w buf)"
proof (cases buf)
  case Nil
  with assms show ?thesis by simp
next
  case (Cons x xs)
  show ?thesis
  proof (cases w)
    case 0
    with assms show ?thesis
      by (auto simp: clean_buffer_def HasPrefix_simps split: if_splits)
  next
    case (Suc k)
    show ?thesis
    proof (cases k)
      case 0
      with Suc Cons assms show ?thesis
        by (cases xs) (auto simp: clean_buffer_def HasPrefix_slash HasPrefix_dot_slash split: if_splits)
    next
      case (Suc j)
      with \<open>w = Suc k\<close> Cons assms show ?thesis
        by (cases xs) (auto simp: clean_buffer_def HasPrefix_slash HasPrefix_dot_slash split: if_splits)
    qed
  qed
qed

lemma clean_buffer_up:
  assumes "clean_buffer False buf"
  shows "clean_buffer False ((if buf \<noteq> [] then buf @ ''/'' else buf) @ ''..'')"
proof (cases buf)
  case Nil
  then show ?thesis
    by (simp add: clean_buffer_def HasPrefix_simps)
next
  case (Cons x xs)
  with assms show ?thesis
    by (cases xs) (auto simp: clean_buffer_def HasPrefix_slash HasPrefix_dot_slash)
qed

lemma clean_buffer_name:
  assumes "clean_buffer rooted buf" and "c \<noteq> CHR ''/''"
    and "\<not> (c = CHR ''.'' \<and> (cs = [] \<or> HasPrefix cs ''/''))"
  shows "clean_buffer rooted
           ((if rooted \<and> length buf \<noteq> 1 \<or> \<not> rooted \<and> length buf \<noteq> 0 then buf @ ''/'' else buf)
              @ c # takeWhile (\<lambda>x. x \<noteq> CHR ''/'') cs)"
proof (cases buf)
  case Nil
  have "takeWhile (\<lambda>x. x \<noteq> CHR ''/'') cs = [] \<Longrightarrow> cs = [] \<or> HasPrefix cs ''/''"
    by (cases cs) (auto simp: HasPrefix_simps split: if_splits)
  moreover have "\<And>r. takeWhile (\<lambda>x. x \<noteq> CHR ''/'') cs \<noteq> CHR ''/'' # r"
    by (cases cs) (auto split: if_splits)
  ultimately show ?thesis
    using Nil assms by (auto simp: clean_buffer_def HasPrefix_slash HasPrefix_dot_slash)
next
  case (Cons x xs)
  with assms show ?thesis
    by (cases xs) (auto simp: clean_buffer_def HasPrefix_slash HasPrefix_dot_slash split: if_splits)
qed

lemma Clean_loop_clean_buffer:
  "clean_buffer rooted buf \<Longrightarrow> (if rooted then 1 \<le> dotdot else dotdot \<noteq> 1) \<Longrightarrow>
     clean_buffer rooted (Clean_loop rooted p buf dotdot)"
proof (induction rooted p buf dotdot rule: Clean_loop.induct)
  case (1 rooted path buf dotdot)
  note inv = "1.prems"
  show ?case
  proof (cases path)
    case Nil
    with inv show ?thesis by simp
  next
    case (Cons c cs)
    let ?dot = "c = CHR ''.'' \<and> (cs = [] \<or> HasPrefix cs ''/'')"
    let ?up = "c = CHR ''.'' \<and> (cs = ''.'' \<or> HasPrefix cs ''./'')"
    consider (slash) "c = CHR ''/''"
      | (dot) "c \<noteq> CHR ''/''" "?dot"
      | (up1) "c \<noteq> CHR ''/''" "\<not> ?dot" "?up" "dotdot < length buf"
      | (up2) "c \<noteq> CHR ''/''" "\<not> ?dot" "?up" "\<not> dotdot < length buf" "\<not> rooted"
      | (up3) "c \<noteq> CHR ''/''" "\<not> ?dot" "?up" "\<not> dotdot < length buf" "\<not> \<not> rooted"
      | (name) "c \<noteq> CHR ''/''" "\<not> ?dot" "\<not> ?up"
      by blast
    then show ?thesis
    proof cases
      case slash
      from "1.IH"(1) [OF Cons slash inv] Cons slash show ?thesis
        by simp
    next
      case dot
      have e: "(c = CHR ''/'') = False" "?dot = True"
        using dot by simp_all
      have r: "Clean_loop rooted (c # cs) buf dotdot = Clean_loop rooted cs buf dotdot"
        by (subst Clean_loop.simps) (simp only: list.case e if_True if_False)
      from "1.IH"(2) [OF Cons dot inv] r Cons show ?thesis
        by simp
    next
      case up1
      have e: "(c = CHR ''/'') = False" "?dot = False" "?up = True" "(dotdot < length buf) = True"
        using up1 by simp_all
      let ?buf = "take (backtrack buf dotdot (length buf - 1)) buf"
      have r: "Clean_loop rooted (c # cs) buf dotdot = Clean_loop rooted (tl cs) ?buf dotdot"
        by (subst Clean_loop.simps) (simp only: list.case e if_True if_False)
      from up1(4) have "dotdot \<le> length buf - 1"
        by simp
      from backtrack_bounds [OF this, of buf] up1(4)
      have "clean_buffer rooted ?buf"
        by (intro clean_buffer_take [OF inv]) auto
      from "1.IH"(3) [OF Cons up1 this inv(2)] r Cons show ?thesis
        by simp
    next
      case up2
      have e: "(c = CHR ''/'') = False" "?dot = False" "?up = True" "(dotdot < length buf) = False" "(\<not> rooted) = True"
        using up2 by simp_all
      let ?buf = "(if buf \<noteq> [] then buf @ ''/'' else buf) @ ''..''"
      have r: "Clean_loop rooted (c # cs) buf dotdot = Clean_loop rooted (tl cs) ?buf (length ?buf)"
        by (subst Clean_loop.simps) (simp only: list.case e if_True if_False)
      have b: "clean_buffer rooted ?buf"
        using up2(5) inv(1) clean_buffer_up [of buf] by simp
      have d: "if rooted then 1 \<le> length ?buf else length ?buf \<noteq> 1"
        by simp
      from "1.IH"(4) [OF Cons up2 b d] r Cons show ?thesis
        by simp
    next
      case up3
      have e: "(c = CHR ''/'') = False" "?dot = False" "?up = True" "(dotdot < length buf) = False" "(\<not> rooted) = False"
        using up3 by simp_all
      have r: "Clean_loop rooted (c # cs) buf dotdot = Clean_loop rooted (tl cs) buf dotdot"
        by (subst Clean_loop.simps) (simp only: list.case e if_True if_False)
      from "1.IH"(5) [OF Cons up3 inv] r Cons show ?thesis
        by simp
    next
      case name
      have e: "(c = CHR ''/'') = False" "?dot = False" "?up = False"
        using name by simp_all
      let ?buf = "(if rooted \<and> length buf \<noteq> 1 \<or> \<not> rooted \<and> length buf \<noteq> 0 then buf @ ''/'' else buf)
                    @ c # takeWhile (\<lambda>x. x \<noteq> CHR ''/'') cs"
      have r: "Clean_loop rooted (c # cs) buf dotdot
                 = Clean_loop rooted (dropWhile (\<lambda>x. x \<noteq> CHR ''/'') cs) ?buf dotdot"
        by (subst Clean_loop.simps) (simp only: list.case e if_True if_False)
      have "clean_buffer rooted ?buf"
        using inv(1) name(1,2) by (rule clean_buffer_name)
      from "1.IH"(6) [OF Cons name this inv(2)] r Cons show ?thesis
        by simp
    qed
  qed
qed

lemma clean_relative_names:
  assumes "clean_relative N"
  shows "list_all is_name (Split N (CHR ''/''))" and "N \<noteq> []" and "\<not> HasPrefix N ''/''"
proof -
  from assms show n: "list_all is_name (Split N (CHR ''/''))"
    by (simp add: clean_relative_def)
  then show "N \<noteq> []"
    by (cases N) (auto simp: is_name_def)
  from n show "\<not> HasPrefix N ''/''"
    by (cases N) (auto simp: is_name_def HasPrefix_simps split: if_splits)
qed

lemma Clean_loop_clean_relative:
  assumes "clean_relative N" and "rooted \<longrightarrow> buf \<noteq> []"
  shows "Clean_loop rooted N buf dotdot = add_names rooted buf N"
proof -
  have "Clean_loop rooted (Join (Split N (CHR ''/'')) (CHR ''/'') @ []) buf dotdot
          = Clean_loop rooted []
              ((if rooted \<and> length buf \<noteq> 1 \<or> \<not> rooted \<and> length buf \<noteq> 0 then buf @ ''/'' else buf)
                 @ Join (Split N (CHR ''/'')) (CHR ''/'')) dotdot"
    using clean_relative_names(1) [OF assms(1)] assms(2) by (intro Clean_loop_names) simp_all
  with clean_relative_names(2) [OF assms(1)] show ?thesis
    by (simp add: add_names_def Join_Split)
qed

lemma Clean_clean_relative:
  assumes "clean_relative N"
  shows "Clean N = N" and "Clean (CHR ''/'' # N) = CHR ''/'' # N"
proof -
  from clean_relative_names [OF assms] obtain c cs where n: "N = c # cs" and c: "c \<noteq> CHR ''/''"
    by (cases N) (auto simp: HasPrefix_simps)
  have "Clean_loop False N [] 0 = N"
    using assms by (simp add: Clean_loop_clean_relative add_names_def)
  with n c show "Clean N = N"
    by (simp add: Clean_def)
  have "Clean_loop True N ''/'' 1 = CHR ''/'' # N"
    using assms by (simp add: Clean_loop_clean_relative add_names_def)
  then show "Clean (CHR ''/'' # N) = CHR ''/'' # N"
    by (simp add: Clean_def)
qed

lemma Clean_before_names:
  assumes "dir \<noteq> []" and "N = [] \<or> clean_relative N"
  shows "Clean (dir @ CHR ''/'' # N)
           = (if N = [] then Clean dir
              else (if Clean dir = ''.'' then [] else if Clean dir = ''/'' then ''/'' else Clean dir @ ''/'')
                     @ N)"
proof -
  from assms(1) obtain c cs where d: "dir = c # cs"
    by (cases dir) auto
  show ?thesis
  proof (cases "c = CHR ''/''")
    case True
    define B where "B = Clean_loop True cs ''/'' 1"
    have "clean_buffer True B"
      unfolding B_def by (rule Clean_loop_clean_buffer) (simp_all add: clean_buffer_def HasPrefix_simps)
    then obtain r where b: "B = CHR ''/'' # r"
      by (auto simp: clean_buffer_def HasPrefix_slash)
    have cd: "Clean dir = B"
      using d True b by (simp add: Clean_def B_def [symmetric] del: One_nat_def)
    have "Clean_loop True (cs @ CHR ''/'' # N) ''/'' 1 = add_names True B N"
      unfolding B_def using assms(2) by (intro Clean_loop_continue) simp_all
    then have "Clean (dir @ CHR ''/'' # N) = add_names True B N"
      using d True b by (simp add: Clean_def add_names_def del: One_nat_def)
    with cd b show ?thesis
      by (auto simp: add_names_def)
  next
    case False
    define B where "B = Clean_loop False dir [] 0"
    have "clean_buffer False B"
      unfolding B_def by (rule Clean_loop_clean_buffer) (simp_all add: clean_buffer_def HasPrefix_simps)
    then have b: "B \<noteq> ''.''" "B \<noteq> ''/''"
      by (auto simp: clean_buffer_def HasPrefix_simps)
    have cd: "Clean dir = (if B = [] then ''.'' else B)"
      unfolding B_def d using False by (simp add: Clean_def Let_def)
    have "Clean_loop False (dir @ CHR ''/'' # N) [] 0 = add_names False B N"
      unfolding B_def using assms(2) by (intro Clean_loop_continue) simp_all
    then have "Clean (dir @ CHR ''/'' # N) = (if add_names False B N = [] then ''.'' else add_names False B N)"
      unfolding d using False by (simp add: Clean_def Let_def)
    with cd b show ?thesis
      by (auto simp: add_names_def)
  qed
qed

lemma Clean_clean_dir:
  assumes "clean_dir dir"
  shows "Clean dir = dir" and "dir \<noteq> ''.''" and "dir \<noteq> ''/''"
proof -
  from assms obtain c cs where d: "dir = c # cs"
    by (cases dir) (auto simp: clean_dir_def)
  show "Clean dir = dir"
    using assms d by (cases "c = CHR ''/''") (simp_all add: clean_dir_def Clean_clean_relative)
  show "dir \<noteq> ''.''"
    using assms by (auto simp: clean_dir_def clean_relative_def is_name_def)
  show "dir \<noteq> ''/''"
    using assms by (auto simp: clean_dir_def clean_relative_def is_name_def)
qed

lemma filepath_Join_clean_rest:
  assumes "clean_rest rest"
  shows "filepath_Join [dir, rest]
           = (if dir = [] then rest
              else if rest = [] then Clean dir
              else (if Clean dir = ''.'' then [] else if Clean dir = ''/'' then ''/'' else Clean dir @ ''/'')
                     @ TrimPrefix rest ''/'')"
proof (cases "rest = []")
  case True
  show ?thesis
  proof (cases "dir = []")
    case True
    with \<open>rest = []\<close> show ?thesis by simp
  next
    case False
    from Clean_before_names [OF False, of "[]"] False True show ?thesis
      by simp
  qed
next
  case False
  with assms have n: "clean_relative (TrimPrefix rest ''/'')"
    by (simp add: clean_rest_def)
  show ?thesis
  proof (cases "HasPrefix rest ''/''")
    case True
    then obtain N where r: "rest = CHR ''/'' # N"
      by (auto simp: HasPrefix_slash)
    then have t: "TrimPrefix rest ''/'' = N"
      by (simp add: TrimPrefix_def HasPrefix_simps)
    with n have c: "clean_relative N"
      by simp
    show ?thesis
    proof (cases "dir = []")
      case True
      with r t c show ?thesis
        by (simp add: Clean_clean_relative)
    next
      case d: False
      have dd: "dir @ ''/'' \<noteq> []"
        by simp
      have "Clean (dir @ ''/'') = Clean dir"
        using Clean_before_names [OF d, of "[]"] by simp
      with Clean_before_names [OF dd, of N] c clean_relative_names(2) [OF c]
      have "Clean (dir @ CHR ''/'' # CHR ''/'' # N)
              = (if Clean dir = ''.'' then [] else if Clean dir = ''/'' then ''/'' else Clean dir @ ''/'') @ N"
        by simp
      with d r t show ?thesis
        by simp
    qed
  next
    case h: False
    then have t: "TrimPrefix rest ''/'' = rest"
      by (simp add: TrimPrefix_def)
    with n have c: "clean_relative rest"
      by simp
    show ?thesis
    proof (cases "dir = []")
      case True
      with False t c show ?thesis
        by (simp add: Clean_clean_relative)
    next
      case d: False
      from Clean_before_names [OF d, of rest] c False d t show ?thesis
        by simp
    qed
  qed
qed

subsection \<open>The path of the page\<close>

text \<open>
  Claim C7 says that the path of the page is the output directory joined with the import
  path without the prefix, with the directory separators preserved.  \<^verbatim>\<open>filepath.Join\<close>
  cleans its result, so separators are not always preserved: below \<^verbatim>\<open>out\<close>, with the prefix
  \<^verbatim>\<open>example.com\<close>, the page of the import path \<^verbatim>\<open>example.com/a//b\<close> is \<^verbatim>\<open>out/a/b.html\<close>.
\<close>

theorem htmlPath_double_slash_counterexample:
  "htmlPath \<lparr>Import = ''example.com/a//b'', RepoURL = ''https://github.com/o/a'', pathLen = 2\<rparr>
       ''example.com'' ''out'' = ''out/a/b.html''
   \<and> ''out/a/b.html'' \<noteq> ''out'' @ ''/a//b'' @ ''.html''"
  by code_simp

text \<open>
  Claim C7, amended.  Let the import path of a matched package be the prefix followed by a
  clean rest: empty, or names separated by single slashes, with or without a leading
  slash.  Then for every output directory the path of the page is, followed by \<^verbatim>\<open>.html\<close>:
  the rest, where the output directory is empty; the cleaned output directory
  (\<^verbatim>\<open>filepath.Clean\<close>), where the rest is empty; and else the cleaned output directory, a
  slash, and the rest without its leading slash, with the slashes of the rest as they
  are (only the rest where the cleaned output directory is \<^verbatim>\<open>.\<close>, and no second slash where
  it is \<^verbatim>\<open>/\<close>).  A clean output directory (names separated by single slashes, with or
  without a leading slash) is its own cleaned form: prefix \<^verbatim>\<open>example.com\<close> and import path
  \<^verbatim>\<open>example.com/repo/sub\<close> give \<^verbatim>\<open>out/repo/sub.html\<close> below \<^verbatim>\<open>out\<close>.
\<close>

theorem htmlPath_clean_rest:
  assumes "Import i = base @ rest" and "clean_rest rest"
  shows "htmlPath i base dir =
           (if dir = [] then rest
            else if rest = [] then Clean dir
            else (if Clean dir = ''.'' then [] else if Clean dir = ''/'' then ''/'' else Clean dir @ ''/'')
                   @ TrimPrefix rest ''/'') @ ''.html''
         \<and> (clean_dir dir \<longrightarrow>
              htmlPath i base dir
                = dir @ (if rest = [] then [] else ''/'' @ TrimPrefix rest ''/'') @ ''.html'')"
proof -
  have j: "htmlPath i base dir = filepath_Join [dir, rest] @ ''.html''"
    using assms(1) by (simp add: htmlPath_def del: filepath_Join.simps)
  have c: "clean_dir dir \<Longrightarrow> dir \<noteq> []"
    by (auto simp: clean_dir_def)
  show ?thesis
    unfolding j filepath_Join_clean_rest [OF assms(2)]
    using c by (auto simp: Clean_clean_dir)
qed

theorem htmlPath_clean_rest_witness:
  "Import \<lparr>Import = ''example.com/repo/sub'', RepoURL = ''https://github.com/o/repo'', pathLen = 1\<rparr>
     = ''example.com'' @ ''/repo/sub''
   \<and> clean_rest ''/repo/sub'' \<and> clean_dir ''out''
   \<and> htmlPath \<lparr>Import = ''example.com/repo/sub'', RepoURL = ''https://github.com/o/repo'', pathLen = 1\<rparr>
        ''example.com'' ''out'' = ''out/repo/sub.html''"
proof -
  have c: "clean_rest ''/repo/sub''" "clean_dir ''out''"
    by code_simp+
  have i: "Import \<lparr>Import = ''example.com/repo/sub'', RepoURL = ''https://github.com/o/repo'', pathLen = 1\<rparr>
             = ''example.com'' @ ''/repo/sub''"
    by simp
  have t: "TrimPrefix ''/repo/sub'' ''/'' = ''repo/sub''"
    by code_simp
  from htmlPath_clean_rest [OF i c(1), of "''out''"] c(2)
  have "htmlPath \<lparr>Import = ''example.com/repo/sub'', RepoURL = ''https://github.com/o/repo'', pathLen = 1\<rparr>
          ''example.com'' ''out''
        = ''out'' @ (if ''/repo/sub'' = [] then [] else ''/'' @ TrimPrefix ''/repo/sub'' ''/'') @ ''.html''"
    by blast
  with c i t show ?thesis
    by simp
qed

text \<open>
  Other output directories, evaluated: the current directory, the root, a directory with
  a trailing slash, a directory above, and no directory at all.
\<close>

lemma htmlPath_examples:
  "map (htmlPath \<lparr>Import = ''example.com/repo/sub'', RepoURL = ''https://github.com/o/repo'', pathLen = 1\<rparr>
          ''example.com'') [''.'', ''/'', ''out/'', ''../site'', []]
     = [''repo/sub.html'', ''/repo/sub.html'', ''out/repo/sub.html'', ''../site/repo/sub.html'',
        ''/repo/sub.html'']"
  by code_simp

subsection \<open>The repositories that getPotentialRepos returns\<close>

lemma search_loop_eq:
  "search_loop s (r, S, us)
     = (r @ map (\<lambda>v. ''https://github.com/'' @ v) (filter (\<lambda>v. Contains v (CHR ''/'')) s),
        S \<union> {v \<in> set s. Contains v (CHR ''/'')},
        us @ filter (\<lambda>v. \<not> Contains v (CHR ''/'')) s)"
  by (induction s arbitrary: r S us) auto

lemma repo_loop_fst:
  "fst (repo_loop g S u repos (r, log))
     = r @ map GetSVNURL
             (filter (\<lambda>repo. u @ ''/'' @ GetName repo \<notin> S \<and> \<not> GetFork repo \<and> is_Go g u repo) repos)"
  by (induction repos arbitrary: r log) (auto simp: Let_def is_Go_def split: sum.splits)

lemma username_loop_fst:
  "fst (username_loop g S us (r, log))
     = r @ concat (map (\<lambda>u. case Repositories_List g u of
                              Inl err \<Rightarrow> []
                            | Inr repos \<Rightarrow>
                                map GetSVNURL
                                  (filter (\<lambda>repo. u @ ''/'' @ GetName repo \<notin> S \<and> \<not> GetFork repo
                                             \<and> is_Go g u repo) repos)) us)"
proof (induction us arbitrary: r log)
  case Nil
  show ?case by simp
next
  case (Cons u us)
  show ?case
  proof (cases "Repositories_List g u")
    case (Inl err)
    with Cons.IH show ?thesis by simp
  next
    case (Inr repos)
    obtain r' log' where l: "repo_loop g S u repos (r, log) = (r', log')"
      by (cases "repo_loop g S u repos (r, log)") auto
    with repo_loop_fst [of g S u repos r log]
    have "r' = r @ map GetSVNURL
             (filter (\<lambda>repo. u @ ''/'' @ GetName repo \<notin> S \<and> \<not> GetFork repo \<and> is_Go g u repo) repos)"
      by simp
    with Inr l Cons.IH [of r' log'] show ?thesis by simp
  qed
qed

lemma getPotentialRepos_fst:
  "fst (getPotentialRepos g s)
     = map (\<lambda>v. ''https://github.com/'' @ v) (filter (\<lambda>v. Contains v (CHR ''/'')) s)
       @ concat (map (\<lambda>u. case Repositories_List g u of
                              Inl err \<Rightarrow> []
                            | Inr repos \<Rightarrow>
                                map GetSVNURL
                                  (filter (\<lambda>repo. u @ ''/'' @ GetName repo \<notin> set s \<and> \<not> GetFork repo
                                             \<and> is_Go g u repo) repos))
                   (filter (\<lambda>v. \<not> Contains v (CHR ''/'')) s))"
proof -
  have e: "(\<lambda>u. case Repositories_List g u of
                  Inl err \<Rightarrow> []
                | Inr repos \<Rightarrow>
                    map GetSVNURL
                      (filter (\<lambda>repo. u @ ''/'' @ GetName repo \<notin> {v \<in> set s. Contains v (CHR ''/'')}
                                 \<and> \<not> GetFork repo \<and> is_Go g u repo) repos))
         = (\<lambda>u. case Repositories_List g u of
                  Inl err \<Rightarrow> []
                | Inr repos \<Rightarrow>
                    map GetSVNURL
                      (filter (\<lambda>repo. u @ ''/'' @ GetName repo \<notin> set s \<and> \<not> GetFork repo
                                 \<and> is_Go g u repo) repos))"
    by (rule ext) (simp add: Contains_def split: sum.splits)
  have "fst (getPotentialRepos g s)
          = fst (username_loop g {v \<in> set s. Contains v (CHR ''/'')}
                  (filter (\<lambda>v. \<not> Contains v (CHR ''/'')) s)
                  (map (\<lambda>v. ''https://github.com/'' @ v) (filter (\<lambda>v. Contains v (CHR ''/'')) s), []))"
    by (simp add: getPotentialRepos_def search_loop_eq [of s "[]" "{}" "[]", simplified]
          split: prod.splits)
  also have "\<dots> = map (\<lambda>v. ''https://github.com/'' @ v) (filter (\<lambda>v. Contains v (CHR ''/'')) s)
       @ concat (map (\<lambda>u. case Repositories_List g u of
                  Inl err \<Rightarrow> []
                | Inr repos \<Rightarrow>
                    map GetSVNURL
                      (filter (\<lambda>repo. u @ ''/'' @ GetName repo \<notin> {v \<in> set s. Contains v (CHR ''/'')}
                                 \<and> \<not> GetFork repo \<and> is_Go g u repo) repos))
                   (filter (\<lambda>v. \<not> Contains v (CHR ''/'')) s))"
    by (rule username_loop_fst)
  finally show ?thesis
    by (simp only: e)
qed


lemma example_repos:
  "getPotentialRepos example_github [''alice'', ''alice/forkrepo'', ''bob/explicit-repo'']
     = ([''https://github.com/alice/forkrepo'', ''https://github.com/bob/explicit-repo'',
         ''https://github.com/alice/tool''], None,
        [Explicitly_listed ''alice'' ''forkrepo'', Is_a_fork ''alice'' ''mirror''])"
  by code_simp

text \<open>
  Claim C8.  Every entry of the search list with a \<^verbatim>\<open>/\<close> is returned as its clone URL
  \<^verbatim>\<open>https://github.com/\<close>\<open>entry\<close>; and every returned URL is such an entry or is the URL of a
  repository, listed for a user name of the search list, that is not a fork and is not
  itself an entry \<open>user/name\<close> of the search list.
\<close>

theorem getPotentialRepos_selection:
  "(\<forall>v \<in> set s. Contains v (CHR ''/'') \<longrightarrow>
       ''https://github.com/'' @ v \<in> set (fst (getPotentialRepos g s)))
   \<and> (\<forall>url \<in> set (fst (getPotentialRepos g s)).
         (\<exists>v \<in> set s. Contains v (CHR ''/'') \<and> url = ''https://github.com/'' @ v)
         \<or> (\<exists>u \<in> set s. \<exists>repos. \<exists>repo \<in> set repos.
               \<not> Contains u (CHR ''/'') \<and> Repositories_List g u = Inr repos
               \<and> url = GetSVNURL repo \<and> \<not> GetFork repo \<and> u @ ''/'' @ GetName repo \<notin> set s))"
proof (intro conjI ballI impI)
  fix v assume "v \<in> set s" "Contains v (CHR ''/'')"
  then show "''https://github.com/'' @ v \<in> set (fst (getPotentialRepos g s))"
    by (simp add: getPotentialRepos_fst)
next
  fix url assume "url \<in> set (fst (getPotentialRepos g s))"
  then consider
      (explicit) "url \<in> set (map (\<lambda>v. ''https://github.com/'' @ v) (filter (\<lambda>v. Contains v (CHR ''/'')) s))"
    | (scanned) u where "u \<in> set s" "\<not> Contains u (CHR ''/'')"
        "url \<in> set (case Repositories_List g u of
                        Inl err \<Rightarrow> []
                      | Inr repos \<Rightarrow>
                          map GetSVNURL
                            (filter (\<lambda>repo. u @ ''/'' @ GetName repo \<notin> set s \<and> \<not> GetFork repo
                                       \<and> is_Go g u repo) repos))"
    unfolding getPotentialRepos_fst by auto
  then show "(\<exists>v \<in> set s. Contains v (CHR ''/'') \<and> url = ''https://github.com/'' @ v)
         \<or> (\<exists>u \<in> set s. \<exists>repos. \<exists>repo \<in> set repos.
               \<not> Contains u (CHR ''/'') \<and> Repositories_List g u = Inr repos
               \<and> url = GetSVNURL repo \<and> \<not> GetFork repo \<and> u @ ''/'' @ GetName repo \<notin> set s)"
  proof cases
    case explicit
    then show ?thesis by auto
  next
    case scanned
    then show ?thesis
      by (cases "Repositories_List g u") auto
  qed
qed

theorem getPotentialRepos_selection_witness:
  "Contains ''bob/explicit-repo'' (CHR ''/'')
   \<and> ''https://github.com/bob/explicit-repo''
       \<in> set (fst (getPotentialRepos example_github [''alice'', ''alice/forkrepo'', ''bob/explicit-repo'']))
   \<and> ''https://github.com/alice/mirror''
       \<notin> set (fst (getPotentialRepos example_github [''alice'', ''alice/forkrepo'', ''bob/explicit-repo'']))"
proof -
  have c: "Contains ''bob/explicit-repo'' (CHR ''/'')"
    by (simp add: Contains_def)
  have m: "''bob/explicit-repo'' \<in> set [''alice'', ''alice/forkrepo'', ''bob/explicit-repo'']"
    by simp
  from getPotentialRepos_selection [of "[''alice'', ''alice/forkrepo'', ''bob/explicit-repo'']" example_github]
  have "\<forall>v \<in> set [''alice'', ''alice/forkrepo'', ''bob/explicit-repo''].
          Contains v (CHR ''/'') \<longrightarrow>
            ''https://github.com/'' @ v
              \<in> set (fst (getPotentialRepos example_github [''alice'', ''alice/forkrepo'', ''bob/explicit-repo'']))"
    by (rule conjunct1)
  with m c have "''https://github.com/'' @ ''bob/explicit-repo''
       \<in> set (fst (getPotentialRepos example_github [''alice'', ''alice/forkrepo'', ''bob/explicit-repo'']))"
    by blast
  with c show ?thesis
    by (simp add: example_repos)
qed

subsection \<open>Validation of the settings\<close>

text \<open>
  Claim C9 says that validation fails when the prefix, the search list or the output
  directory is missing.  \<^verbatim>\<open>config.Parse\<close> checks the first two and never looks at \<^verbatim>\<open>out\<close>,
  which the usage text of the program calls required: with a prefix and a search list and
  no output directory it returns no error.
\<close>

theorem config_Parse_empty_out:
  "config_Parse \<lparr>prefix = ''pack.ag'', prefixURL = None, search = ''vcabbage/go-tftp'',
      searchList = [], out = [], githubToken = [], writeCNAME = False\<rparr>
   = (None, \<lparr>prefix = ''pack.ag'', prefixURL = Some (new_URL\<lparr>Host := ''pack.ag''\<rparr>),
        search = ''vcabbage/go-tftp'', searchList = [''vcabbage/go-tftp''], out = [],
        githubToken = [], writeCNAME = False\<rparr>)"
  by code_simp

text \<open>
  The two settings that are checked: without a prefix or without a search list
  validation fails.
\<close>

lemma config_Parse_requires_prefix_and_search:
  "prefix cfg = [] \<or> search cfg = [] \<Longrightarrow> fst (config_Parse cfg) \<noteq> None"
  by (auto simp: config_Parse_def split: sum.splits)

subsection \<open>A run with failing repositories\<close>




lemma scan_loop_returns:
  "\<forall>line \<in> set lines. HasPrefix line base \<longrightarrow> CHR '':'' \<in> set line \<Longrightarrow>
     \<exists>r. scan_loop ev tmpDir url base lines acc = Returns r"
proof (induction lines arbitrary: acc)
  case Nil
  show ?case by simp
next
  case (Cons line rest)
  show ?case
  proof (cases "HasPrefix line base")
    case False
    with Cons show ?thesis by simp
  next
    case True
    with Cons.prems have "CHR '':'' \<in> set line"
      by simp
    from Split_present [OF this] obtain a b more where s: "Split line (CHR '':'') = a # b # more"
      by blast
    from Cons have "\<And>acc. \<exists>r. scan_loop ev tmpDir url base rest acc = Returns r"
      by simp
    with True s show ?thesis
      by (cases "ev b") simp_all
  qed
qed

lemma getVanityPackages_returns:
  assumes "\<forall>tmpDir. \<forall>line \<in> set (Scan (go_list x tmpDir)). HasPrefix line base \<longrightarrow> CHR '':'' \<in> set line"
  shows "\<exists>r. getVanityPackages x url base = Returns r"
proof -
  have "\<exists>r. scan_loop (EvalSymlinks x) tmpDir url base (Scan (go_list x tmpDir)) [] = Returns r" for tmpDir
    using assms by (intro scan_loop_returns) simp
  then have "scan_loop (EvalSymlinks x) tmpDir url base (Scan (go_list x tmpDir)) [] \<noteq> Panics p"
    and "scan_loop (EvalSymlinks x) tmpDir url base (Scan (go_list x tmpDir)) [] \<noteq> Exits n"
    for tmpDir p n
    by (metis outcome.distinct(3), metis outcome.distinct(5))
  then show ?thesis
    unfolding getVanityPackages_def
    by (simp split: sum.splits option.splits outcome.splits)
qed







text \<open>
  A package whose recorded depth exceeds the segments of its import path makes
  \<^verbatim>\<open>ImportPrefix\<close> panic while the template is executed; the page is not written, and the
  failure is printed.
\<close>

lemma emit_loop_ImportPrefix_panics:
  "emit_loop example_world
       \<lparr>prefix = ''pack.ag'', prefixURL = Some (new_URL\<lparr>Host := ''pack.ag''\<rparr>),
          search = ''o/tftp, o/broken, o/other'',
          searchList = [''o/tftp'', ''o/broken'', ''o/other''], out = ''out'',
          githubToken = [], writeCNAME = False\<rparr>
       [\<lparr>Import = ''pack.ag'', RepoURL = ''https://github.com/o/r'', pathLen = 2\<rparr>]
       \<lparr>stdout = [], written = []\<rparr>
     = \<lparr>stdout = [Error_writing ''out.html'' (error_calling_ImportPrefix SliceBoundsOutOfRange)],
         written = []\<rparr>"
  by code_simp




end
